theory Spec2Isabelle
  imports Complex_Main "HOL-Library.Multiset"
begin

section \<open>Constants (Tetris.py, lines 44-59)\<close>

definition COLS :: nat where "COLS = 10"
definition ROWS :: nat where "ROWS = 22"
definition VISIBLE_ROWS :: nat where "VISIBLE_ROWS = 20"
definition HIDDEN_ROWS :: nat where "HIDDEN_ROWS = ROWS - VISIBLE_ROWS"
definition LOCK_DELAY :: real where "LOCK_DELAY = 1 / 2"
definition LOCK_RESETS_MAX :: int where "LOCK_RESETS_MAX = 15"

section \<open>Shapes and kick tables (lines 87-292)\<close>

text \<open>
  The seven piece kinds are the keys of \<open>SHAPES\<close>, the characters of \<open>'IJLOSTZ'\<close>;
  \<open>KO\<close> is the kind \<open>'O'\<close> (the bare letter is HOL's relation composition), and so on.
\<close>

datatype kind = KI | KJ | KL | KO | KS | KT | KZ

text \<open>
  Every rotation state of a kind is a 4x4 mask, a list of 16 one-character strings in the
  source and a 16-character string here, row after row; \<open>X\<close> is an occupied cell.
\<close>

fun SHAPES :: "kind \<Rightarrow> string list" where
  "SHAPES KI = [''....XXXX........'', ''..X...X...X...X.'', ''........XXXX....'', ''.X...X...X...X..'']"
| "SHAPES KJ = [''X...XXX.........'', ''.XX..X...X......'', ''....XXX...X.....'', ''.X...X..XX......'']"
| "SHAPES KL = [''..X.XXX.........'', ''.X...X...XX.....'', ''....XXX.X.......'', ''XX...X...X......'']"
| "SHAPES KO = [''.XX..XX.........'', ''.XX..XX.........'', ''.XX..XX.........'', ''.XX..XX.........'']"
| "SHAPES KS = [''.XX.XX..........'', ''.X...XX...X.....'', ''.....XX.XX......'', ''X...XX...X......'']"
| "SHAPES KT = [''.X..XXX.........'', ''.X...XX..X......'', ''....XXX..X......'', ''.X..XX...X......'']"
| "SHAPES KZ = [''XX...XX.........'', ''..X..XX..X......'', ''....XX...XX.....'', ''.X..XX..X.......'']"

text \<open>The kick tables are dictionaries from a (from, to) pair of rotation states.\<close>

definition JLSTZ_KICKS :: "(nat \<times> nat) \<rightharpoonup> (int \<times> int) list" where
  "JLSTZ_KICKS = map_of
    [((0,1), [(0,0), (-1,0), (-1,-1), (0,2), (-1,2)]),
     ((1,0), [(0,0), (1,0), (1,1), (0,-2), (1,-2)]),
     ((1,2), [(0,0), (1,0), (1,1), (0,-2), (1,-2)]),
     ((2,1), [(0,0), (-1,0), (-1,-1), (0,2), (-1,2)]),
     ((2,3), [(0,0), (1,0), (1,-1), (0,2), (1,2)]),
     ((3,2), [(0,0), (-1,0), (-1,1), (0,-2), (-1,-2)]),
     ((3,0), [(0,0), (-1,0), (-1,1), (0,-2), (-1,-2)]),
     ((0,3), [(0,0), (1,0), (1,-1), (0,2), (1,2)])]"

definition I_KICKS :: "(nat \<times> nat) \<rightharpoonup> (int \<times> int) list" where
  "I_KICKS = map_of
    [((0,1), [(0,0), (-2,0), (1,0), (-2,-1), (1,2)]),
     ((1,0), [(0,0), (2,0), (-1,0), (2,1), (-1,-2)]),
     ((1,2), [(0,0), (-1,0), (2,0), (-1,2), (2,-1)]),
     ((2,1), [(0,0), (1,0), (-2,0), (1,-2), (-2,1)]),
     ((2,3), [(0,0), (2,0), (-1,0), (2,1), (-1,-2)]),
     ((3,2), [(0,0), (-2,0), (1,0), (-2,-1), (1,2)]),
     ((3,0), [(0,0), (1,0), (-2,0), (1,-2), (-2,1)]),
     ((0,3), [(0,0), (-1,0), (2,0), (-1,2), (2,-1)])]"

section \<open>Scoring table (lines 339-348)\<close>

datatype line_type =
  single | double | triple | tetris
  | tspin_mini_single | tspin_single | tspin_double | tspin_triple

fun SCORE_TABLE :: "line_type \<Rightarrow> int" where
  "SCORE_TABLE single = 100"
| "SCORE_TABLE double = 300"
| "SCORE_TABLE triple = 500"
| "SCORE_TABLE tetris = 800"
| "SCORE_TABLE tspin_mini_single = 200"
| "SCORE_TABLE tspin_single = 800"
| "SCORE_TABLE tspin_double = 1200"
| "SCORE_TABLE tspin_triple = 1600"

section \<open>Piece (lines 351-383)\<close>

datatype action = move | rotate

text \<open>
  \<open>rot\<close> is only ever written as \<open>0\<close> or as a value \<open>mod 4\<close>, so it is a natural
  number; the lookups \<open>SHAPES[kind][rot]\<close> and the dictionary of front corners are
  defined for \<open>rot < 4\<close>, which the theorems below assume wherever a lookup matters.
  \<open>x\<close> and \<open>y\<close> are Python integers (\<open>y\<close> is negative above the grid).
\<close>

record piece =
  kind :: kind
  rot :: nat
  x :: int
  y :: int
  last_action :: "action option"
  lock_resets :: nat

definition Piece :: "kind \<Rightarrow> piece" where
  "Piece k = \<lparr> kind = k, rot = 0, x = 3,
               y = (if k = KO then 0 - int HIDDEN_ROWS else -1),
               last_action = None, lock_resets = 0 \<rparr>"

definition shape :: "piece \<Rightarrow> string" where
  "shape p = SHAPES (kind p) ! rot p"

definition cells :: "piece \<Rightarrow> (int \<times> int) list" where
  "cells p = [(x p + int (i mod 4), y p + int (i div 4)). i \<leftarrow> [0..<16], shape p ! i = CHR ''X'']"

text \<open>The indices of the occupied cells of a mask, in the order \<open>cells\<close> visits them.\<close>

definition marked :: "string \<Rightarrow> nat list" where
  "marked s = filter (\<lambda>i. s ! i = CHR ''X'') [0..<16]"

section \<open>Board (lines 416-451)\<close>

text \<open>A cell is \<open>'.'\<close> (\<open>None\<close>) or the kind that locked there; the grid is a list of rows.\<close>

type_synonym cell = "kind option"
type_synonym board = "cell list list"

definition empty_row :: "cell list" where
  "empty_row = replicate COLS None"

definition Board :: board where
  "Board = replicate ROWS empty_row"

definition inside :: "int \<Rightarrow> int \<Rightarrow> bool" where
  "inside cx cy \<longleftrightarrow> 0 \<le> cx \<and> cx < int COLS \<and> cy < int ROWS"

definition collide :: "board \<Rightarrow> piece \<Rightarrow> bool" where
  "collide b p = list_ex (\<lambda>(cx, cy). \<not> cy < 0 \<and> (\<not> inside cx cy \<or> b ! nat cy ! nat cx \<noteq> None)) (cells p)"

definition lock_cell :: "kind \<Rightarrow> int \<times> int \<Rightarrow> board \<Rightarrow> board" where
  "lock_cell k c b = (case c of (cx, cy) \<Rightarrow>
     if 0 \<le> cy \<and> cy < int ROWS \<and> 0 \<le> cx \<and> cx < int COLS
     then b[nat cy := (b ! nat cy)[nat cx := Some k]] else b)"

definition lock :: "board \<Rightarrow> piece \<Rightarrow> board" where
  "lock b p = fold (lock_cell (kind p)) (cells p) b"

definition row_full :: "cell list \<Rightarrow> bool" where
  "row_full r = list_all (\<lambda>c. c \<noteq> None) r"

text \<open>
  The loop of \<open>clear_lines\<close>: for every index of \<open>full\<close>, in order, \<open>del grid[i]\<close> and
  \<open>grid.insert(0, empty row)\<close>.
\<close>

fun clear_loop :: "nat list \<Rightarrow> board \<Rightarrow> board" where
  "clear_loop [] b = b"
| "clear_loop (i # rest) b = clear_loop rest (empty_row # (take i b @ drop (Suc i) b))"

definition clear_lines :: "board \<Rightarrow> board \<times> nat \<times> nat list" where
  "clear_lines b =
     (let full = [i \<leftarrow> [0..<ROWS]. row_full (b ! i)]
      in (clear_loop full b, length full, full))"

definition topped_out :: "board \<Rightarrow> bool" where
  "topped_out b = list_ex (\<lambda>r. list_ex (\<lambda>c. b ! r ! c \<noteq> None) [0..<COLS]) [0..<HIDDEN_ROWS]"

text \<open>The shape of a board built by \<open>Board()\<close>: \<open>ROWS\<close> rows of \<open>COLS\<close> cells.\<close>

definition wf_board :: "board \<Rightarrow> bool" where
  "wf_board b \<longleftrightarrow> length b = ROWS \<and> list_all (\<lambda>r. length r = COLS) b"

section \<open>Rotation with wall kicks (lines 455-493)\<close>

text \<open>
  The loop of the 180 degree branch: the offset is added to the piece, tested, and
  subtracted again when the position collides.
\<close>

fun try_kicks_180 :: "board \<Rightarrow> piece \<Rightarrow> (int \<times> int) list \<Rightarrow> piece \<times> bool" where
  "try_kicks_180 b p [] = (p, False)"
| "try_kicks_180 b p (k # ks) =
     (let p1 = p\<lparr>x := x p + fst k, y := y p + snd k\<rparr>
      in if \<not> collide b p1 then (p1\<lparr>last_action := Some rotate\<rparr>, True)
         else try_kicks_180 b (p1\<lparr>x := x p1 - fst k, y := y p1 - snd k\<rparr>) ks)"

text \<open>The loop of the table branch: the position is set from the saved one.\<close>

fun try_kicks :: "board \<Rightarrow> piece \<Rightarrow> int \<Rightarrow> int \<Rightarrow> (int \<times> int) list \<Rightarrow> piece \<times> bool" where
  "try_kicks b p oldx oldy [] = (p, False)"
| "try_kicks b p oldx oldy (k # ks) =
     (let p1 = p\<lparr>x := oldx + fst k, y := oldy + snd k\<rparr>
      in if \<not> collide b p1 then (p1\<lparr>last_action := Some rotate\<rparr>, True)
         else try_kicks b p1 oldx oldy ks)"

definition rotate_with_kick :: "board \<Rightarrow> piece \<Rightarrow> int \<Rightarrow> piece \<times> bool" where
  "rotate_with_kick b p dir =
     (if kind p = KO \<and> (dir = 1 \<or> dir = -1) then
        (let p1 = p\<lparr>rot := nat ((int (rot p) + dir) mod 4)\<rparr>
         in if collide b p1 then (p1\<lparr>rot := nat ((int (rot p1) - dir) mod 4)\<rparr>, False)
            else (p1\<lparr>last_action := Some rotate\<rparr>, True))
      else if dir = 2 then
        (let target = (rot p + 2) mod 4;
             kicks = [(0,0),(1,0),(-1,0),(0,1),(0,-1),(2,0),(-2,0)];
             old_rot = rot p;
             r = try_kicks_180 b (p\<lparr>rot := target\<rparr>) kicks
         in if snd r then r else ((fst r)\<lparr>rot := old_rot\<rparr>, False))
      else
        (let frm = rot p;
             to = nat ((int (rot p) + dir) mod 4);
             kicks = (if kind p = KI then I_KICKS else JLSTZ_KICKS);
             oldx = x p; oldy = y p; oldrot = rot p;
             r = try_kicks b (p\<lparr>rot := to\<rparr>) oldx oldy
                   (case kicks (frm, to) of Some ks \<Rightarrow> ks | None \<Rightarrow> [(0,0)])
         in if snd r then r else ((fst r)\<lparr>x := oldx, y := oldy, rot := oldrot\<rparr>, False)))"

section \<open>T-spin test (lines 497-530)\<close>

text \<open>The test both counting loops apply to a corner: outside the grid, or not \<open>'.'\<close>.\<close>

definition occupied_at :: "board \<Rightarrow> int \<times> int \<Rightarrow> bool" where
  "occupied_at b c = (case c of (cx, cy) \<Rightarrow>
     if \<not> (0 \<le> cx \<and> cx < int COLS \<and> 0 \<le> cy \<and> cy < int ROWS) then True
     else b ! nat cy ! nat cx \<noteq> None)"

text \<open>The four corners around the centre \<open>(x + 1, y + 1)\<close>, and the dictionary \<open>front\<close>.\<close>

definition corners :: "piece \<Rightarrow> (int \<times> int) list" where
  "corners p = (let cx = x p + 1; cy = y p + 1
                in [(cx - 1, cy - 1), (cx + 1, cy - 1), (cx - 1, cy + 1), (cx + 1, cy + 1)])"

definition front :: "piece \<Rightarrow> (int \<times> int) list" where
  "front p = (let cx = x p + 1; cy = y p + 1
              in [[(cx - 1, cy - 1), (cx + 1, cy - 1)],
                  [(cx + 1, cy - 1), (cx + 1, cy + 1)],
                  [(cx - 1, cy + 1), (cx + 1, cy + 1)],
                  [(cx - 1, cy - 1), (cx - 1, cy + 1)]] ! rot p)"

definition is_tspin :: "board \<Rightarrow> piece \<Rightarrow> nat \<Rightarrow> action option \<Rightarrow> bool \<times> bool" where
  "is_tspin b p nlines la =
     (if kind p \<noteq> KT \<or> la \<noteq> Some rotate \<or> nlines \<le> 0 then (False, False)
      else let occupied = length (filter (occupied_at b) (corners p))
           in if occupied < 3 then (False, False)
              else let focc = length (filter (occupied_at b) (front p));
                       is_mini = (focc = 1 \<and> nlines = 1)
                   in (True, is_mini))"

section \<open>Seven-bag randomiser and preview queue (lines 386-413)\<close>

text \<open>
  \<open>random.shuffle\<close> reads the state of the process random source. That state is explicit
  here: \<open>r 0\<close> is the list the next call of \<open>shuffle\<close> leaves in \<open>kinds\<close>, \<open>r 1\<close> the one
  after it, and so on. A call consumes the head of the sequence.
\<close>

type_synonym rng = "nat \<Rightarrow> kind list"

definition kinds :: "kind list" where
  "kinds = [KI, KJ, KL, KO, KS, KT, KZ]"

record Bag =
  pool :: "kind list"

definition Bag_refill :: "rng \<Rightarrow> Bag \<Rightarrow> Bag \<times> rng" where
  "Bag_refill r bg = (bg\<lparr>pool := pool bg @ r 0\<rparr>, \<lambda>n. r (Suc n))"

definition Bag_init :: "rng \<Rightarrow> Bag \<times> rng" where
  "Bag_init r = Bag_refill r \<lparr>pool = []\<rparr>"

text \<open>\<open>None\<close> is a call that does not return: here \<open>pop(0)\<close> of an empty list raises.\<close>

definition Bag_pop :: "rng \<Rightarrow> Bag \<Rightarrow> (kind \<times> Bag \<times> rng) option" where
  "Bag_pop r bg =
     (let s = (if pool bg = [] then Bag_refill r bg else (bg, r))
      in case pool (fst s) of
           [] \<Rightarrow> None
         | k # rest \<Rightarrow> Some (k, (fst s)\<lparr>pool := rest\<rparr>, snd s))"

text \<open>\<open>[self.bag.pop() for _ in range(n)]\<close>, the comprehension of \<open>Queue.__init__\<close>.\<close>

fun Bag_pops :: "nat \<Rightarrow> rng \<Rightarrow> Bag \<Rightarrow> (kind list \<times> Bag \<times> rng) option" where
  "Bag_pops 0 r bg = Some ([], bg, r)"
| "Bag_pops (Suc n) r bg =
     (case Bag_pop r bg of
        None \<Rightarrow> None
      | Some (k, bg1, r1) \<Rightarrow>
          (case Bag_pops n r1 bg1 of
             None \<Rightarrow> None
           | Some (ks, bg2, r2) \<Rightarrow> Some (k # ks, bg2, r2)))"

record Queue =
  bag :: Bag
  items :: "kind list"
  preview :: nat

definition Queue_init :: "nat \<Rightarrow> rng \<Rightarrow> (Queue \<times> rng) option" where
  "Queue_init pv r =
     (case Bag_init r of (bg, r1) \<Rightarrow>
        (case Bag_pops (pv + 1) r1 bg of
           None \<Rightarrow> None
         | Some (ks, bg1, r2) \<Rightarrow> Some (\<lparr>bag = bg1, items = ks, preview = pv\<rparr>, r2)))"

definition Queue_next :: "rng \<Rightarrow> Queue \<Rightarrow> (kind \<times> Queue \<times> rng) option" where
  "Queue_next r q =
     (case items q of
        [] \<Rightarrow> None
      | n # rest \<Rightarrow>
          (case Bag_pop r (bag q) of
             None \<Rightarrow> None
           | Some (k, bg1, r1) \<Rightarrow> Some (n, q\<lparr>items := rest @ [k], bag := bg1\<rparr>, r1)))"

definition peek_list :: "Queue \<Rightarrow> kind list" where
  "peek_list q = take (preview q) (items q)"

section \<open>Game (lines 533-693)\<close>

text \<open>
  The timers are Python floats and are reals here. The intents only store the constants
  \<open>0.0\<close> and \<open>0.15\<close> in them or leave them alone; the timed update adds and compares
  them, and the rounding of these operations is not part of the model. \<open>rand\<close> is the
  state of the random source (see above).
\<close>

record game =
  board :: board
  queue :: Queue
  rand :: rng
  hold :: "kind option"
  hold_used :: bool
  cur :: piece
  ghost_y :: int
  score :: int
  lines :: int
  level :: int
  combo :: int
  b2b :: bool
  drop_distance_soft :: int
  drop_distance_hard :: int
  gravity_timer :: real
  lock_timer :: "real option"
  running :: bool
  paused :: bool
  game_over :: bool
  lock_reset_count :: int
  last_move_time :: int
  clear_anim :: "(nat list \<times> real) option"

text \<open>
  \<open>compute_ghost_y\<close> is a \<open>while True\<close> loop on a clone of the piece; a run that never
  leaves the loop is the value \<open>None\<close>.
\<close>

partial_function (option) ghost_loop :: "board \<Rightarrow> piece \<Rightarrow> int option" where
  "ghost_loop b p =
     (if collide b (p\<lparr>y := y p + 1\<rparr>) then Some (y (p\<lparr>y := y p + 1\<rparr>) - 1)
      else ghost_loop b (p\<lparr>y := y p + 1\<rparr>))"

declare ghost_loop.simps [code]

definition compute_ghost_y :: "game \<Rightarrow> int option" where
  "compute_ghost_y g = ghost_loop (board g) (cur g)"

definition spawn :: "game \<Rightarrow> game option" where
  "spawn g =
     (case Queue_next (rand g) (queue g) of
        None \<Rightarrow> None
      | Some (k, q1, r1) \<Rightarrow>
          (let g1 = g\<lparr>queue := q1, rand := r1, cur := Piece k, hold_used := False\<rparr>;
               g2 = (if collide (board g1) (cur g1) then g1\<lparr>game_over := True\<rparr> else g1)
           in case compute_ghost_y g2 of
                None \<Rightarrow> None
              | Some gy \<Rightarrow> Some (g2\<lparr>ghost_y := gy, lock_timer := None, lock_reset_count := 0\<rparr>)))"

definition try_move :: "game \<Rightarrow> int \<Rightarrow> int \<Rightarrow> game \<times> bool" where
  "try_move g dx dy =
     (let oldx = x (cur g); oldy = y (cur g);
          c1 = (cur g)\<lparr>x := x (cur g) + dx, y := y (cur g) + dy\<rparr>
      in if collide (board g) c1 then (g\<lparr>cur := c1\<lparr>x := oldx, y := oldy\<rparr>\<rparr>, False)
         else
           (let g1 = g\<lparr>cur := c1\<lparr>last_action := Some move\<rparr>\<rparr>
            in if dy = 0 \<and> lock_timer g1 \<noteq> None
               then (if lock_reset_count g1 < LOCK_RESETS_MAX
                     then (g1\<lparr>lock_timer := Some 0, lock_reset_count := lock_reset_count g1 + 1\<rparr>, True)
                     else (g1, True))
               else (g1, True)))"

definition try_rotate :: "game \<Rightarrow> int \<Rightarrow> (game \<times> bool) option" where
  "try_rotate g dir =
     (let r = rotate_with_kick (board g) (cur g) dir;
          g1 = g\<lparr>cur := fst r\<rparr>
      in if snd r then
           (let g2 = (if lock_timer g1 \<noteq> None \<and> lock_reset_count g1 < LOCK_RESETS_MAX
                      then g1\<lparr>lock_timer := Some 0, lock_reset_count := lock_reset_count g1 + 1\<rparr>
                      else g1)
            in case compute_ghost_y g2 of
                 None \<Rightarrow> None
               | Some gy \<Rightarrow> Some (g2\<lparr>ghost_y := gy\<rparr>, True))
         else Some (g1, False))"

definition soft_drop :: "game \<Rightarrow> game \<times> bool" where
  "soft_drop g =
     (let r = try_move g 0 1
      in if snd r then ((fst r)\<lparr>drop_distance_soft := drop_distance_soft (fst r) + 1\<rparr>, True)
         else (fst r, False))"

text \<open>Lines 636-640 of \<open>lock_piece\<close>: write the piece, pay the drop credits, clear them.\<close>

definition lock_and_credit :: "game \<Rightarrow> game" where
  "lock_and_credit g =
     g\<lparr>board := lock (board g) (cur g),
       score := score g + (drop_distance_soft g * 1 + drop_distance_hard g * 2),
       drop_distance_soft := 0,
       drop_distance_hard := 0\<rparr>"

text \<open>Lines 646-666: the class of the clear and whether it is of back-to-back type.\<close>

definition classify :: "bool \<Rightarrow> bool \<Rightarrow> nat \<Rightarrow> line_type option \<times> bool" where
  "classify tspin mini cleared =
     (if tspin then
        (if cleared = 1 then Some (if mini then tspin_mini_single else tspin_single)
         else if cleared = 2 then Some tspin_double
         else if cleared = 3 then Some tspin_triple
         else None, True)
      else
        (if cleared = 1 then (Some single, False)
         else if cleared = 2 then (Some double, False)
         else if cleared = 3 then (Some triple, False)
         else if cleared = 4 then (Some tetris, True)
         else (None, False)))"

text \<open>
  Lines 668-685. \<open>int(base * 1.5)\<close> is exact for the table's values and truncates a
  non-negative number, so it is \<open>base * 3 div 2\<close>.
\<close>

definition score_lines :: "game \<Rightarrow> line_type option \<Rightarrow> bool \<Rightarrow> nat \<Rightarrow> nat list \<Rightarrow> game" where
  "score_lines g lt is_b2b_type cleared lines_idx =
     (case lt of
        Some t \<Rightarrow>
          (let base = SCORE_TABLE t;
               base1 = (if is_b2b_type \<and> b2b g then base * 3 div 2 else base);
               combo1 = (if combo g \<ge> 0 then combo g + 1 else 0);
               base2 = base1 + 50 * combo1
           in g\<lparr>b2b := is_b2b_type, combo := combo1, score := score g + base2,
                lines := lines g + int cleared, clear_anim := Some (lines_idx, 0.15)\<rparr>)
      | None \<Rightarrow> g\<lparr>combo := -1\<rparr>)"

text \<open>Lines 643-691: clear the lines, classify, score, recompute the level.\<close>

definition clear_and_score :: "game \<Rightarrow> game" where
  "clear_and_score g =
     (case clear_lines (board g) of (b1, cleared, lines_idx) \<Rightarrow>
        (let g1 = g\<lparr>board := b1\<rparr>;
             ts = is_tspin (board g1) (cur g1) cleared (last_action (cur g1));
             cl = classify (fst ts) (snd ts) cleared;
             g2 = score_lines g1 (fst cl) (snd cl) cleared lines_idx
         in g2\<lparr>level := 1 + lines g2 div 10\<rparr>))"

definition lock_piece :: "game \<Rightarrow> game option" where
  "lock_piece g = spawn (clear_and_score (lock_and_credit g))"

text \<open>
  The loop of \<open>hard_drop\<close>, \<open>while self.try_move(0,1): dist += 1\<close>; a run that never
  leaves it is \<open>None\<close>. \<open>ndist\<close> is the source's \<open>dist\<close>.
\<close>

partial_function (option) hard_drop_loop :: "game \<Rightarrow> int \<Rightarrow> (game \<times> int) option" where
  "hard_drop_loop g ndist =
     (if snd (try_move g 0 1) then hard_drop_loop (fst (try_move g 0 1)) (ndist + 1)
      else Some (fst (try_move g 0 1), ndist))"

declare hard_drop_loop.simps [code]

text \<open>The state \<open>hard_drop\<close> hands to \<open>lock_piece\<close>: after the loop and \<open>+= dist\<close>.\<close>

definition hard_drop_descend :: "game \<Rightarrow> game option" where
  "hard_drop_descend g =
     (case hard_drop_loop g 0 of
        None \<Rightarrow> None
      | Some (g1, ndist) \<Rightarrow> Some (g1\<lparr>drop_distance_hard := drop_distance_hard g1 + ndist\<rparr>))"

definition hard_drop :: "game \<Rightarrow> game option" where
  "hard_drop g = (case hard_drop_descend g of None \<Rightarrow> None | Some g1 \<Rightarrow> lock_piece g1)"

text \<open>The player's intents on one piece, applied in sequence.\<close>

datatype intent = Move int int | Rotate int | SoftDrop

definition apply_intent :: "game \<Rightarrow> intent \<Rightarrow> game option" where
  "apply_intent g i =
     (case i of
        Move dx dy \<Rightarrow> Some (fst (try_move g dx dy))
      | Rotate dir \<Rightarrow> map_option fst (try_rotate g dir)
      | SoftDrop \<Rightarrow> Some (fst (soft_drop g)))"

text \<open>\<open>Game.on_ground\<close> (lines 732-735): one row further down the clone collides.\<close>

definition on_ground :: "game \<Rightarrow> bool" where
  "on_ground g = collide (board g) ((cur g)\<lparr>y := y (cur g) + 1\<rparr>)"

section \<open>The timed update (lines 335-336 and 695-730)\<close>

text \<open>
  Times are Python floats; they are reals here, so rounding is not part of the model.
  \<open>0.85 ** (level - 1)\<close> has an integer exponent.
\<close>

definition gravity_interval :: "int \<Rightarrow> real" where
  "gravity_interval lv = max (5 / 100) (8 / 10 * power_int (85 / 100) (lv - 1))"

text \<open>
  Lines 698-716 of \<open>update\<close>: the clear animation and the gravity step. (The value
  assigned to the local \<open>on_ground\<close> at line 710 is never read.)
\<close>

definition update_fall :: "game \<Rightarrow> real \<Rightarrow> game" where
  "update_fall g dt =
     (let g1 = (case clear_anim g of
                  None \<Rightarrow> g
                | Some (idx, t) \<Rightarrow>
                    (if t - dt \<le> 0 then g\<lparr>clear_anim := None\<rparr>
                     else g\<lparr>clear_anim := Some (idx, t - dt)\<rparr>));
          gi = gravity_interval (level g1);
          g2 = g1\<lparr>gravity_timer := gravity_timer g1 + dt\<rparr>
      in if gravity_timer g2 \<ge> gi then
           (let g3 = g2\<lparr>gravity_timer := gravity_timer g2 - gi\<rparr>;
                r = try_move g3 0 1
            in if \<not> snd r then
                 (if lock_timer (fst r) = None then (fst r)\<lparr>lock_timer := Some 0\<rparr> else fst r)
               else fst r)
         else g2)"

text \<open>The test under which lines 719-726 call \<open>lock_piece\<close>.\<close>

definition lock_due :: "game \<Rightarrow> real \<Rightarrow> bool" where
  "lock_due g dt =
     (on_ground g \<and> (case lock_timer g of None \<Rightarrow> False | Some t \<Rightarrow> t + dt \<ge> LOCK_DELAY))"

text \<open>Lines 719-728: the lock-delay timer.\<close>

definition update_lock :: "game \<Rightarrow> real \<Rightarrow> game option" where
  "update_lock g dt =
     (if on_ground g then
        (case lock_timer g of
           None \<Rightarrow> Some (g\<lparr>lock_timer := Some 0\<rparr>)
         | Some t \<Rightarrow>
             (let g1 = g\<lparr>lock_timer := Some (t + dt)\<rparr>
              in if t + dt \<ge> LOCK_DELAY then
                   (case lock_piece g1 of
                      None \<Rightarrow> None
                    | Some g2 \<Rightarrow> Some (g2\<lparr>lock_timer := None\<rparr>))
                 else Some g1))
      else Some (g\<lparr>lock_timer := None\<rparr>))"

definition update :: "game \<Rightarrow> real \<Rightarrow> game option" where
  "update g dt =
     (if paused g \<or> game_over g then Some g
      else
        (case update_lock (update_fall g dt) dt of
           None \<Rightarrow> None
         | Some g1 \<Rightarrow>
             (case compute_ghost_y g1 of
                None \<Rightarrow> None
              | Some gy \<Rightarrow> Some (g1\<lparr>ghost_y := gy\<rparr>))))"

text \<open>
  What happens to a session: the player's intents and the ticks of the frame loop, each
  tick a call \<open>update(dt)\<close>.
\<close>

datatype event = Intent intent | Tick real

definition apply_event :: "game \<Rightarrow> event \<Rightarrow> game option" where
  "apply_event g e = (case e of Intent i \<Rightarrow> apply_intent g i | Tick dt \<Rightarrow> update g dt)"

fun run :: "game \<Rightarrow> event list \<Rightarrow> game option" where
  "run g [] = Some g"
| "run g (e # rest) =
     (case apply_event g e of None \<Rightarrow> None | Some g1 \<Rightarrow> run g1 rest)"

text \<open>The number of intents of a run after which the lock timer has another value.\<close>

fun intent_resets :: "game \<Rightarrow> event list \<Rightarrow> nat" where
  "intent_resets g [] = 0"
| "intent_resets g (e # rest) =
     (case apply_event g e of
        None \<Rightarrow> 0
      | Some g1 \<Rightarrow>
          (case e of
             Intent i \<Rightarrow> (if lock_timer g1 \<noteq> lock_timer g then 1 else 0)
           | Tick dt \<Rightarrow> 0) + intent_resets g1 rest)"

text \<open>The number of ticks of a run that lock the piece, each ending a piece's life.\<close>

definition tick_locks :: "game \<Rightarrow> real \<Rightarrow> bool" where
  "tick_locks g dt \<longleftrightarrow> \<not> (paused g \<or> game_over g) \<and> lock_due (update_fall g dt) dt"

fun locks_in :: "game \<Rightarrow> event list \<Rightarrow> nat" where
  "locks_in g [] = 0"
| "locks_in g (e # rest) =
     (case apply_event g e of
        None \<Rightarrow> 0
      | Some g1 \<Rightarrow>
          (case e of
             Intent i \<Rightarrow> 0
           | Tick dt \<Rightarrow> (if tick_locks g dt then 1 else 0)) + locks_in g1 rest)"

section \<open>Well-formedness and concrete states\<close>

text \<open>
  \<open>Queue.next\<close> pops the first item and one kind from the bag. The queue of a session
  always holds \<open>preview + 1\<close> items and a shuffle yields seven kinds, so the condition below
  holds in every session; it is what makes \<open>spawn\<close> return.
\<close>

definition queue_ready :: "game \<Rightarrow> bool" where
  "queue_ready g \<longleftrightarrow> items (queue g) \<noteq> [] \<and> (pool (bag (queue g)) \<noteq> [] \<or> rand g 0 \<noteq> [])"

text \<open>
  What the loops and \<open>spawn\<close> need in every state of a session: the queue is not empty,
  every shuffle yields kinds, and the piece has a rotation state.
\<close>

definition session_ok :: "game \<Rightarrow> bool" where
  "session_ok g \<longleftrightarrow> items (queue g) \<noteq> [] \<and> (\<forall>n. rand g n \<noteq> []) \<and> rot (cur g) < 4"

definition piece_at :: "kind \<Rightarrow> nat \<Rightarrow> int \<Rightarrow> int \<Rightarrow> action option \<Rightarrow> piece" where
  "piece_at k r px py a = \<lparr>kind = k, rot = r, x = px, y = py, last_action = a, lock_resets = 0\<rparr>"

text \<open>A session with the given board and active piece, the counters as \<open>Game.__init__\<close> sets them.\<close>

definition demo_game :: "board \<Rightarrow> piece \<Rightarrow> game" where
  "demo_game bd p =
     \<lparr>board = bd,
      queue = \<lparr>bag = \<lparr>pool = [KJ, KL, KT, KI]\<rparr>, items = [KS, KZ, KO], preview = 2\<rparr>,
      rand = (\<lambda>n. kinds), hold = None, hold_used = False, cur = p, ghost_y = 0,
      score = 0, lines = 0, level = 1, combo = -1, b2b = False,
      drop_distance_soft = 0, drop_distance_hard = 0, gravity_timer = 0, lock_timer = None,
      running = True, paused = False, game_over = False, lock_reset_count = 0,
      last_move_time = 0, clear_anim = None\<rparr>"

definition full_board :: board where
  "full_board = replicate ROWS (replicate COLS (Some KI))"

definition clear_demo_board :: board where
  "clear_demo_board = replicate 19 empty_row @
     [Some KJ # replicate 9 None, replicate COLS (Some KI), None # replicate 9 (Some KZ)]"

text \<open>
  Row 21 lacks columns 0 to 2, row 19 has a block in column 0: a T piece pointing up at
  \<open>(0, 20)\<close> completes row 21.
\<close>

definition tspin_board :: board where
  "tspin_board = replicate 19 empty_row @
     [Some KJ # replicate 9 None, empty_row, replicate 3 None @ replicate 7 (Some KI)]"

definition tspin_game :: game where
  "tspin_game = demo_game tspin_board (piece_at KT 0 0 20 (Some rotate))"

text \<open>Rows 18 to 21 lack column 9 only: a vertical I piece in column 9 completes all four.\<close>

definition tetris_board :: board where
  "tetris_board = replicate 18 empty_row @ replicate 4 (replicate 9 (Some KJ) @ [None])"

definition tetris_game :: game where
  "tetris_game = (demo_game tetris_board (piece_at KI 1 7 18 (Some move)))\<lparr>b2b := True, combo := 0\<rparr>"

text \<open>A T piece lying on the floor of an empty board, its lock timer running.\<close>

definition floor_game :: "int \<Rightarrow> game" where
  "floor_game n = (demo_game Board (piece_at KT 0 3 20 None))\<lparr>lock_timer := Some (3 / 10), lock_reset_count := n\<rparr>"

text \<open>
  The same piece with all 15 resets used and the timer at 0.25: the next tick of 0.25
  seconds locks it.
\<close>

definition stall_game :: game where
  "stall_game = (demo_game Board (piece_at KT 0 3 20 (Some move)))\<lparr>lock_timer := Some (1 / 4), lock_reset_count := 15\<rparr>"

text \<open>A T piece that was just rotated, in column 3 at row \<open>py\<close> of an empty board.\<close>

definition drop_game :: "int \<Rightarrow> game" where
  "drop_game py = demo_game Board (piece_at KT 0 3 py (Some rotate))"

text \<open>A random source whose every shuffle leaves the same order.\<close>

definition shuffled :: rng where
  "shuffled = (\<lambda>n. [KT, KI, KZ, KO, KS, KL, KJ])"

section \<open>Basic facts\<close>

lemma rot_cases: "r < 4 \<Longrightarrow> r = 0 \<or> r = 1 \<or> r = 2 \<or> r = (3::nat)"
  by arith

lemma concat_if_filter:
  "concat (map (\<lambda>i. if P i then [f i] else []) xs) = map f (filter P xs)"
  by (induction xs) auto

lemma cells_marked:
  "cells p = map (\<lambda>i. (x p + int (i mod 4), y p + int (i div 4))) (marked (shape p))"
  by (simp add: cells_def marked_def concat_if_filter)

lemma marked_KO_all: "list_all (\<lambda>r. marked (SHAPES KO ! r) = [1, 2, 5, 6]) [0, 1, 2, 3]"
  by code_simp

lemma marked_KO: "r < 4 \<Longrightarrow> marked (SHAPES KO ! r) = [1, 2, 5, 6]"
  using marked_KO_all rot_cases[of r] by auto

lemma cells_KO:
  assumes "kind p = KO" "rot p < 4"
  shows "cells p = [(x p + 1, y p), (x p + 2, y p), (x p + 1, y p + 1), (x p + 2, y p + 1)]"
  using marked_KO[OF assms(2)] assms(1) by (simp add: cells_marked shape_def)

lemma marked_nonempty_all:
  "list_all (\<lambda>k. list_all (\<lambda>r. marked (SHAPES k ! r) \<noteq> []) [0, 1, 2, 3]) [KI, KJ, KL, KO, KS, KT, KZ]"
  by code_simp

lemma marked_KT_rows_all:
  "list_all (\<lambda>r. list_all (\<lambda>i. i div 4 < 3) (marked (SHAPES KT ! r))) [0, 1, 2, 3]"
  by code_simp

text \<open>A T piece lies in the first three rows of its 4x4 box, whatever its rotation.\<close>

lemma cells_KT_rows:
  assumes "kind p = KT" "rot p < 4" "c \<in> set (cells p)"
  shows "snd c = y p \<or> snd c = y p + 1 \<or> snd c = y p + 2"
proof -
  from marked_KT_rows_all rot_cases[OF assms(2)]
  have "list_all (\<lambda>i. i div 4 < 3) (marked (SHAPES KT ! rot p))" by auto
  with assms(1,3) obtain i where "i div 4 < 3" "snd c = y p + int (i div 4)"
    by (auto simp: cells_marked shape_def list_all_iff)
  then show ?thesis by (cases "i div 4 = 0"; cases "i div 4 = 1") auto
qed

lemma collide_cells_cong: "cells p = cells q \<Longrightarrow> collide b p = collide b q"
  by (simp add: collide_def)

lemma cells_last_action [simp]: "cells (p\<lparr>last_action := a\<rparr>) = cells p"
  by (simp add: cells_def shape_def cong: if_cong)

lemma collide_last_action [simp]: "collide b (p\<lparr>last_action := a\<rparr>) = collide b p"
  by (simp add: collide_def)

lemma cells_nonempty: "rot p < 4 \<Longrightarrow> cells p \<noteq> []"
  using marked_nonempty_all rot_cases[of "rot p"]
  by (cases "kind p") (auto simp: cells_marked shape_def)

lemma cells_below: "c \<in> set (cells p) \<Longrightarrow> y p \<le> snd c"
  by (auto simp: cells_def)

text \<open>A piece wholly at or below row \<open>ROWS\<close> collides: this is what ends both loops.\<close>

lemma collide_below:
  assumes "rot p < 4" and "int ROWS \<le> y p"
  shows "collide b p"
proof -
  from cells_nonempty[OF assms(1)] obtain c where c: "c \<in> set (cells p)"
    by (cases "cells p") auto
  with cells_below[OF c] assms(2) have "\<not> snd c < 0" "\<not> inside (fst c) (snd c)"
    by (auto simp: inside_def)
  with c show ?thesis
    by (auto simp: collide_def list_ex_iff split_beta)
qed

section \<open>Rotation\<close>

lemma try_kicks_180_fail:
  "\<not> snd (try_kicks_180 b p ks) \<Longrightarrow> fst (try_kicks_180 b p ks) = p"
  by (induction ks arbitrary: p) (auto simp: Let_def)

lemma try_kicks_fail:
  "\<not> snd (try_kicks b p ox oy ks) \<Longrightarrow>
     fst (try_kicks b p ox oy ks)\<lparr>x := ox, y := oy\<rparr> = p\<lparr>x := ox, y := oy\<rparr>"
  by (induction ks arbitrary: p) (auto simp: Let_def)

lemma mod4_back: "r < 4 \<Longrightarrow> nat (((int r + d) mod 4 - d) mod 4) = r"
  by (simp add: mod_diff_left_eq)

lemma mod4_back_plus: "r < 4 \<Longrightarrow> nat (((int r + 1) mod 4 - 1) mod 4) = r"
  using mod4_back[of r 1] by simp

lemma mod4_back_minus: "r < 4 \<Longrightarrow> nat (((int r - 1) mod 4 + 1) mod 4) = r"
  using mod4_back[of r "-1"] by simp

text \<open>
  Claim C7. A rotation attempt that reports failure leaves the piece as it was: \<open>x\<close>,
  \<open>y\<close> and \<open>rot\<close> have their values from before the attempt, and so has every other
  field. This holds for every direction argument, in particular for \<open>+1\<close>, \<open>-1\<close> and
  \<open>2\<close>. The O branch restores \<open>rot\<close> by subtracting \<open>dir\<close> modulo 4, which gives the old
  value because \<open>rot\<close> is a rotation state (\<open>rot < 4\<close>).
\<close>

theorem rotate_fail_rollback:
  assumes "rot p < 4" and "\<not> snd (rotate_with_kick b p dir)"
  shows "x (fst (rotate_with_kick b p dir)) = x p \<and>
         y (fst (rotate_with_kick b p dir)) = y p \<and>
         rot (fst (rotate_with_kick b p dir)) = rot p \<and>
         fst (rotate_with_kick b p dir) = p"
proof -
  have "fst (rotate_with_kick b p dir) = p"
  proof (cases "kind p = KO \<and> (dir = 1 \<or> dir = -1)")
    case True
    with assms show ?thesis
      by (auto simp: rotate_with_kick_def Let_def mod4_back_plus mod4_back_minus split: if_splits)
  next
    case notO: False
    show ?thesis
    proof (cases "dir = 2")
      case True
      with notO assms show ?thesis
        using try_kicks_180_fail[of b "p\<lparr>rot := (rot p + 2) mod 4\<rparr>"]
        by (auto simp: rotate_with_kick_def Let_def split: if_splits)
    next
      case False
      with notO assms show ?thesis
        using try_kicks_fail[of b "p\<lparr>rot := nat ((int (rot p) + dir) mod 4)\<rparr>" "x p" "y p"]
        by (auto simp: rotate_with_kick_def Let_def split: if_splits)
    qed
  qed
  then show ?thesis by simp
qed

text \<open>On a board with every cell taken, a T piece at \<open>(3, 5)\<close> cannot turn clockwise.\<close>

theorem rotate_fail_rollback_witness:
  "rot (piece_at KT 0 3 5 None) < 4 \<and>
   \<not> snd (rotate_with_kick full_board (piece_at KT 0 3 5 None) 1) \<and>
   fst (rotate_with_kick full_board (piece_at KT 0 3 5 None) 1) = piece_at KT 0 3 5 None"
proof -
  have h1: "rot (piece_at KT 0 3 5 None) < 4" by code_simp
  have h2: "\<not> snd (rotate_with_kick full_board (piece_at KT 0 3 5 None) 1)" by code_simp
  show ?thesis
    using rotate_fail_rollback[OF h1 h2] h1 h2 by simp
qed

text \<open>
  Claim C9. An O piece that does not collide can always be rotated, by \<open>+1\<close>, \<open>-1\<close> or
  180 degrees: the attempt succeeds, the occupied cells are the same list as before, and
  the position does not move. (All four masks of \<open>SHAPES['O']\<close> are equal, so the
  collision test after the rotation is the one the piece already passed.)
\<close>

theorem O_rotation_noop:
  assumes "kind p = KO" and "rot p < 4" and "\<not> collide b p"
    and "dir = 1 \<or> dir = -1 \<or> dir = 2"
  shows "snd (rotate_with_kick b p dir) \<and>
         cells (fst (rotate_with_kick b p dir)) = cells p \<and>
         x (fst (rotate_with_kick b p dir)) = x p \<and>
         y (fst (rotate_with_kick b p dir)) = y p"
proof -
  have same: "cells (p\<lparr>rot := r\<rparr>) = cells p" if "r < 4" for r
    using that assms(1,2) by (simp add: cells_KO)
  have nc: "\<not> collide b (p\<lparr>rot := r\<rparr>)" if "r < 4" for r
    using collide_cells_cong[OF same[OF that], of b] assms(3) by simp
  from assms(4) consider "dir = 1 \<or> dir = -1" | "dir = 2" by blast
  then show ?thesis
  proof cases
    case 1
    have r4: "nat ((int (rot p) + dir) mod 4) < 4" by simp
    show ?thesis
      using 1 assms(1) nc[OF r4] same[OF r4]
      by (auto simp: rotate_with_kick_def Let_def)
  next
    case 2
    have r4: "(rot p + 2) mod 4 < 4" by simp
    show ?thesis
      using 2 assms(1) nc[OF r4] same[OF r4]
      by (simp add: rotate_with_kick_def Let_def)
  qed
qed

theorem O_rotation_noop_witness:
  "\<not> collide Board (piece_at KO 1 4 10 None) \<and>
   snd (rotate_with_kick Board (piece_at KO 1 4 10 None) 2) \<and>
   cells (fst (rotate_with_kick Board (piece_at KO 1 4 10 None) 2)) = cells (piece_at KO 1 4 10 None)"
proof -
  have h1: "kind (piece_at KO 1 4 10 None) = KO" by code_simp
  have h2: "rot (piece_at KO 1 4 10 None) < 4" by code_simp
  have h3: "\<not> collide Board (piece_at KO 1 4 10 None)" by code_simp
  have h4: "(2::int) = 1 \<or> (2::int) = -1 \<or> (2::int) = 2" by simp
  show ?thesis
    using O_rotation_noop[OF h1 h2 h3 h4] h3 by simp
qed

section \<open>Clearing lines\<close>

text \<open>
  The loop invariant, with the grid split in the part \<open>A\<close> already passed and the part
  \<open>B\<close> still to scan: deleting a full row and inserting an empty one on top moves no row
  of \<open>B\<close>, so the indices computed before the loop stay right.
\<close>

lemma clear_loop_gen:
  "clear_loop [i \<leftarrow> [length A..<length A + length B]. row_full ((A @ B) ! i)] (A @ B)
     = replicate (length (filter row_full B)) empty_row @ A @ filter (\<lambda>r. \<not> row_full r) B"
proof (induction B arbitrary: A)
  case Nil
  then show ?case by simp
next
  case (Cons r B)
  have idx: "[i \<leftarrow> [Suc (length A)..<Suc (length A + length B)]. row_full ((A @ r # B) ! i)]
             = [i \<leftarrow> [length (A1)..<length (A1) + length B]. row_full ((A1 @ B) ! i)]"
    if "length A1 = Suc (length A)" for A1 :: board
    using that by (auto intro!: filter_cong simp: nth_append nth_Cons' simp del: upt_Suc)
  have hd_upt: "[length A..<Suc (length A + length B)]
               = length A # [Suc (length A)..<Suc (length A + length B)]"
    by (simp add: upt_conv_Cons del: upt_Suc)
  show ?case
  proof (cases "row_full r")
    case True
    have "clear_loop [i \<leftarrow> [length A..<length A + length (r # B)]. row_full ((A @ r # B) ! i)] (A @ r # B)
          = clear_loop [i \<leftarrow> [length (empty_row # A)..<length (empty_row # A) + length B].
                          row_full (((empty_row # A) @ B) ! i)] ((empty_row # A) @ B)"
      using True idx[of "empty_row # A"] by (simp add: hd_upt del: upt_Suc)
    also have "\<dots> = replicate (length (filter row_full B)) empty_row @ (empty_row # A) @ filter (\<lambda>r. \<not> row_full r) B"
      by (rule Cons.IH)
    finally show ?thesis using True by (simp add: replicate_app_Cons_same)
  next
    case False
    have "clear_loop [i \<leftarrow> [length A..<length A + length (r # B)]. row_full ((A @ r # B) ! i)] (A @ r # B)
          = clear_loop [i \<leftarrow> [length (A @ [r])..<length (A @ [r]) + length B].
                          row_full (((A @ [r]) @ B) ! i)] ((A @ [r]) @ B)"
      using False idx[of "A @ [r]"] by (simp add: hd_upt del: upt_Suc)
    also have "\<dots> = replicate (length (filter row_full B)) empty_row @ (A @ [r]) @ filter (\<lambda>r. \<not> row_full r) B"
      by (rule Cons.IH)
    finally show ?thesis using False by simp
  qed
qed

lemma full_indices_count:
  "length [i \<leftarrow> [0..<length b]. P (b ! i)] = length (filter P b)"
proof -
  have "map ((!) b) [i \<leftarrow> [0..<length b]. P (b ! i)] = filter P (map ((!) b) [0..<length b])"
    by (simp add: filter_map comp_def)
  then have "length (map ((!) b) [i \<leftarrow> [0..<length b]. P (b ! i)]) = length (filter P b)"
    by (simp add: map_nth)
  then show ?thesis by simp
qed

lemma clear_lines_eq:
  assumes "length b = ROWS"
  shows "clear_lines b =
           (replicate (length (filter row_full b)) empty_row @ filter (\<lambda>r. \<not> row_full r) b,
            length (filter row_full b),
            [i \<leftarrow> [0..<ROWS]. row_full (b ! i)])"
  using clear_loop_gen[of "[]" b] full_indices_count[of row_full b] assms
  by (simp add: clear_lines_def Let_def)

text \<open>
  Claim C6. On a board of \<open>ROWS\<close> rows of \<open>COLS\<close> cells, \<open>clear_lines\<close> leaves the grid
  made of one empty row per full row, followed by the rows that are not full in their
  original order; it returns the number of full rows and the list of their indices in the
  grid as it was before the call. The grid keeps its shape.
\<close>

theorem clear_lines_spec:
  assumes "wf_board b"
  shows "clear_lines b =
           (replicate (length (filter row_full b)) empty_row @ filter (\<lambda>r. \<not> row_full r) b,
            length (filter row_full b),
            [i \<leftarrow> [0..<ROWS]. row_full (b ! i)]) \<and>
         wf_board (fst (clear_lines b))"
proof -
  from assms have len: "length b = ROWS" by (simp add: wf_board_def)
  have "length (filter row_full b) + length (filter (\<lambda>r. \<not> row_full r) b) = length b"
    by (rule sum_length_filter_compl)
  with assms len have "wf_board (replicate (length (filter row_full b)) empty_row @ filter (\<lambda>r. \<not> row_full r) b)"
    by (auto simp: wf_board_def list_all_iff empty_row_def)
  with clear_lines_eq[OF len] show ?thesis by simp
qed

text \<open>Rows 19 and 21 stay, in this order, under one new empty row; row 20 is removed.\<close>

theorem clear_lines_spec_witness:
  "wf_board clear_demo_board \<and>
   clear_lines clear_demo_board =
     (replicate 20 empty_row @ [Some KJ # replicate 9 None, None # replicate 9 (Some KZ)], 1, [20])"
proof -
  have h: "wf_board clear_demo_board" by code_simp
  have r: "replicate (length (filter row_full clear_demo_board)) empty_row
             @ filter (\<lambda>r. \<not> row_full r) clear_demo_board
           = replicate 20 empty_row @ [Some KJ # replicate 9 None, None # replicate 9 (Some KZ)]"
    by code_simp
  have n: "length (filter row_full clear_demo_board) = 1" by code_simp
  have i: "[i \<leftarrow> [0..<ROWS]. row_full (clear_demo_board ! i)] = [20]" by code_simp
  show ?thesis
    using clear_lines_spec[OF h] h r n i by simp
qed

section \<open>The bag\<close>

lemma Bag_pops_prefix:
  "pool bg = ks @ rest \<Longrightarrow> Bag_pops (length ks) r bg = Some (ks, bg\<lparr>pool := rest\<rparr>, r)"
proof (induction ks arbitrary: bg)
  case Nil
  then show ?case by simp
next
  case (Cons k ks)
  have "Bag_pop r bg = Some (k, bg\<lparr>pool := ks @ rest\<rparr>, r)"
    using Cons.prems by (simp add: Bag_pop_def)
  moreover have "Bag_pops (length ks) r (bg\<lparr>pool := ks @ rest\<rparr>)
                 = Some (ks, bg\<lparr>pool := ks @ rest\<rparr>\<lparr>pool := rest\<rparr>, r)"
    by (rule Cons.IH) simp
  ultimately show ?case by simp
qed

lemma count_kinds: "count (mset kinds) k = 1"
  by (cases k) (simp_all add: kinds_def)

lemma perm_counts:
  assumes "mset ks = mset kinds"
  shows "count_list ks k = 1" and "length ks = 7"
proof -
  have "count_list ks k = count (mset ks) k" by (simp add: count_mset)
  with assms show "count_list ks k = 1" by (simp add: count_kinds)
  have "length ks = size (mset ks)" by simp
  with assms show "length ks = 7" by (simp add: kinds_def)
qed

text \<open>
  Claim C8. Seven pops that start at a bag boundary return each of the seven kinds exactly
  once, whatever permutation the shuffle produces. \<open>r 0\<close> is the outcome of the refill's
  shuffle, any list with the elements of \<open>'IJLOSTZ'\<close>. The boundary is taken both ways:
  from the empty pool, where the first pop refills, and from the pool just refilled from
  empty (\<open>Bag_refill r bg\<close>). In both cases the seven pops are \<open>r 0\<close> itself, so
  every kind is counted once, and the pool is empty again afterwards.
\<close>

theorem bag_seven_pops:
  assumes "pool bg = []" and "mset (r 0) = mset kinds"
  shows "\<exists>bg1. Bag_pops 7 r bg = Some (r 0, bg1, \<lambda>n. r (Suc n)) \<and> pool bg1 = [] \<and>
           (\<forall>k. count_list (r 0) k = 1) \<and>
           Bag_pops 7 (\<lambda>n. r (Suc n)) (fst (Bag_refill r bg)) = Some (r 0, bg1, \<lambda>n. r (Suc n))"
proof -
  have len: "length (r 0) = 7" by (rule perm_counts(2)[OF assms(2)])
  then obtain k rest where kr: "r 0 = k # rest" by (cases "r 0") auto
  with len have lr: "length rest = 6" by simp
  have pop1: "Bag_pop r bg = Some (k, bg\<lparr>pool := rest\<rparr>, \<lambda>n. r (Suc n))"
    using assms(1) kr by (simp add: Bag_pop_def Bag_refill_def)
  have rest: "Bag_pops (length rest) (\<lambda>n. r (Suc n)) (bg\<lparr>pool := rest\<rparr>)
              = Some (rest, bg\<lparr>pool := rest\<rparr>\<lparr>pool := []\<rparr>, \<lambda>n. r (Suc n))"
    by (rule Bag_pops_prefix) simp
  have "Bag_pops (Suc (length rest)) r bg = Some (k # rest, bg\<lparr>pool := []\<rparr>, \<lambda>n. r (Suc n))"
    using pop1 rest by simp
  then have a: "Bag_pops 7 r bg = Some (r 0, bg\<lparr>pool := []\<rparr>, \<lambda>n. r (Suc n))"
    using lr kr by simp
  have "Bag_pops (length (r 0)) (\<lambda>n. r (Suc n)) (bg\<lparr>pool := r 0\<rparr>)
        = Some (r 0, bg\<lparr>pool := r 0\<rparr>\<lparr>pool := []\<rparr>, \<lambda>n. r (Suc n))"
    by (rule Bag_pops_prefix) simp
  then have b: "Bag_pops 7 (\<lambda>n. r (Suc n)) (fst (Bag_refill r bg)) = Some (r 0, bg\<lparr>pool := []\<rparr>, \<lambda>n. r (Suc n))"
    using len assms(1) by (simp add: Bag_refill_def)
  from a b perm_counts(1)[OF assms(2)] show ?thesis by simp
qed

theorem bag_seven_pops_witness:
  "pool \<lparr>pool = []\<rparr> = [] \<and> mset (shuffled 0) = mset kinds \<and>
   map_option fst (Bag_pops 7 shuffled \<lparr>pool = []\<rparr>) = Some [KT, KI, KZ, KO, KS, KL, KJ] \<and>
   count_list (shuffled 0) KS = 1"
proof -
  have h1: "pool \<lparr>pool = []\<rparr> = []" by simp
  have h2: "mset (shuffled 0) = mset kinds" by (simp add: shuffled_def kinds_def)
  from bag_seven_pops[of "\<lparr>pool = []\<rparr>" shuffled, OF h1 h2] obtain bg1 where
    "Bag_pops 7 shuffled \<lparr>pool = []\<rparr> = Some (shuffled 0, bg1, \<lambda>n. shuffled (Suc n))"
    and "\<forall>k. count_list (shuffled 0) k = 1"
    by blast
  with h1 h2 show ?thesis by (simp add: shuffled_def)
qed

section \<open>The loops return\<close>

lemma ghost_loop_returns:
  "rot p < 4 \<Longrightarrow> \<exists>gy. ghost_loop b p = Some gy"
proof (induction "nat (int ROWS - y p)" arbitrary: p rule: less_induct)
  case less
  show ?case
  proof (cases "collide b (p\<lparr>y := y p + 1\<rparr>)")
    case True
    then show ?thesis by (subst ghost_loop.simps) simp
  next
    case False
    have "\<not> int ROWS \<le> y (p\<lparr>y := y p + 1\<rparr>)"
      using collide_below[of "p\<lparr>y := y p + 1\<rparr>" b] less.prems False by auto
    then have "nat (int ROWS - y (p\<lparr>y := y p + 1\<rparr>)) < nat (int ROWS - y p)"
      by simp
    from less.hyps[OF this] less.prems obtain gy where "ghost_loop b (p\<lparr>y := y p + 1\<rparr>) = Some gy"
      by auto
    with False show ?thesis by (subst ghost_loop.simps) simp
  qed
qed

lemma try_move_down:
  "try_move g 0 1 =
     (if collide (board g) ((cur g)\<lparr>y := y (cur g) + 1\<rparr>) then (g, False)
      else (g\<lparr>cur := (cur g)\<lparr>y := y (cur g) + 1, last_action := Some move\<rparr>\<rparr>, True))"
  by (simp add: try_move_def Let_def)

lemma hard_drop_loop_result:
  "rot (cur g) < 4 \<Longrightarrow>
   \<exists>m::nat. hard_drop_loop g n =
      Some (if m = 0 then g
            else g\<lparr>cur := (cur g)\<lparr>y := y (cur g) + int m, last_action := Some move\<rparr>\<rparr>,
            n + int m)"
proof (induction "nat (int ROWS - y (cur g))" arbitrary: g n rule: less_induct)
  case less
  let ?c = "(cur g)\<lparr>y := y (cur g) + 1\<rparr>"
  show ?case
  proof (cases "collide (board g) ?c")
    case True
    then have "hard_drop_loop g n = Some (g, n)"
      by (subst hard_drop_loop.simps) (simp add: try_move_down)
    then show ?thesis by (intro exI[of _ 0]) simp
  next
    case False
    let ?g = "g\<lparr>cur := (cur g)\<lparr>y := y (cur g) + 1, last_action := Some move\<rparr>\<rparr>"
    have step: "hard_drop_loop g n = hard_drop_loop ?g (n + 1)"
      using False by (subst hard_drop_loop.simps) (simp add: try_move_down)
    have "\<not> int ROWS \<le> y ?c"
      using collide_below[of ?c "board g"] less.prems False by auto
    then have "nat (int ROWS - y (cur ?g)) < nat (int ROWS - y (cur g))"
      by simp
    from less.hyps[OF this, of "n + 1"] less.prems
    obtain m where m: "hard_drop_loop ?g (n + 1) =
      Some (if m = 0 then ?g
            else ?g\<lparr>cur := (cur ?g)\<lparr>y := y (cur ?g) + int m, last_action := Some move\<rparr>\<rparr>,
            n + 1 + int m)"
      by auto
    show ?thesis
      using step m by (intro exI[of _ "Suc m"]) (auto simp: add.assoc add.commute)
  qed
qed

lemma Bag_pop_returns:
  "pool bg \<noteq> [] \<or> r 0 \<noteq> [] \<Longrightarrow> \<exists>k bg1 r1. Bag_pop r bg = Some (k, bg1, r1)"
  by (cases "pool bg"; cases "r 0") (auto simp: Bag_pop_def Bag_refill_def)

lemma spawn_returns:
  assumes "queue_ready g"
  shows "\<exists>g'. spawn g = Some g' \<and> score g' = score g \<and> b2b g' = b2b g \<and> combo g' = combo g
           \<and> lines g' = lines g \<and> level g' = level g \<and> board g' = board g
           \<and> drop_distance_soft g' = drop_distance_soft g
           \<and> drop_distance_hard g' = drop_distance_hard g
           \<and> lock_timer g' = None \<and> lock_reset_count g' = 0"
proof -
  from assms obtain n rest where it: "items (queue g) = n # rest"
    by (cases "items (queue g)") (auto simp: queue_ready_def)
  from assms Bag_pop_returns[of "bag (queue g)" "rand g"]
  obtain k bg1 r1 where bp: "Bag_pop (rand g) (bag (queue g)) = Some (k, bg1, r1)"
    by (auto simp: queue_ready_def)
  have qn: "Queue_next (rand g) (queue g) = Some (n, (queue g)\<lparr>items := rest @ [k], bag := bg1\<rparr>, r1)"
    by (simp add: Queue_next_def it bp)
  have r0: "rot (Piece n) < 4" by (simp add: Piece_def)
  from ghost_loop_returns[OF r0, of "board g"] obtain gy where "ghost_loop (board g) (Piece n) = Some gy" ..
  then show ?thesis
    by (cases "collide (board g) (Piece n)") (simp_all add: spawn_def qn Let_def compute_ghost_y_def)
qed

lemma settle_fields [simp]:
  "queue (clear_and_score g) = queue g"
  "rand (clear_and_score g) = rand g"
  "drop_distance_soft (clear_and_score g) = drop_distance_soft g"
  "drop_distance_hard (clear_and_score g) = drop_distance_hard g"
  by (simp_all add: clear_and_score_def score_lines_def Let_def split: prod.splits option.splits)

lemma lock_and_credit_fields [simp]:
  "queue (lock_and_credit g) = queue g"
  "rand (lock_and_credit g) = rand g"
  "cur (lock_and_credit g) = cur g"
  by (simp_all add: lock_and_credit_def)

lemma queue_ready_settle [simp]:
  "queue_ready (clear_and_score (lock_and_credit g)) = queue_ready g"
  by (simp add: queue_ready_def lock_and_credit_def)

lemma hard_drop_descend_result:
  assumes "rot (cur g) < 4"
  shows "\<exists>m::nat. hard_drop_descend g =
      Some ((if m = 0 then g
            else g\<lparr>cur := (cur g)\<lparr>y := y (cur g) + int m, last_action := Some move\<rparr>\<rparr>)
            \<lparr>drop_distance_hard := drop_distance_hard g + int m\<rparr>)"
proof -
  from hard_drop_loop_result[OF assms, of 0] obtain m where
    "hard_drop_loop g 0 = Some (if m = 0 then g
            else g\<lparr>cur := (cur g)\<lparr>y := y (cur g) + int m, last_action := Some move\<rparr>\<rparr>, 0 + int m)" ..
  then show ?thesis
    by (intro exI[of _ m]) (simp add: hard_drop_descend_def)
qed

lemma try_kicks_180_rot: "rot (fst (try_kicks_180 b p ks)) = rot p"
  by (induction ks arbitrary: p) (auto simp: Let_def)

lemma try_kicks_rot: "rot (fst (try_kicks b p ox oy ks)) = rot p"
  by (induction ks arbitrary: p) (auto simp: Let_def)

lemma nat_mod4 [simp]: "nat ((a::int) mod 4) < 4"
  by (simp add: nat_less_iff)

lemma rotate_success_rot:
  assumes "snd (rotate_with_kick b p dir)"
  shows "rot (fst (rotate_with_kick b p dir)) < 4"
proof (cases "kind p = KO \<and> (dir = 1 \<or> dir = -1)")
  case True
  with assms show ?thesis
    by (simp add: rotate_with_kick_def Let_def split: if_splits)
next
  case notO: False
  show ?thesis
  proof (cases "dir = 2")
    case True
    with notO assms show ?thesis
      by (simp add: rotate_with_kick_def Let_def try_kicks_180_rot split: if_splits)
  next
    case False
    with notO assms show ?thesis
      by (auto simp: rotate_with_kick_def Let_def try_kicks_rot split: if_splits)
  qed
qed

lemma try_rotate_not_None: "try_rotate g dir \<noteq> None"
proof (cases "snd (rotate_with_kick (board g) (cur g) dir)")
  case True
  from ghost_loop_returns[OF rotate_success_rot[OF True]]
  obtain gy where "ghost_loop (board g) (fst (rotate_with_kick (board g) (cur g) dir)) = Some gy" ..
  with True show ?thesis
    by (auto simp: try_rotate_def Let_def compute_ghost_y_def)
next
  case False
  then show ?thesis by (auto simp: try_rotate_def Let_def)
qed

lemma try_rotate_returns: "\<exists>r. try_rotate g dir = Some r"
  using try_rotate_not_None[of g dir] by (cases "try_rotate g dir") auto

section \<open>Hard drop\<close>

text \<open>
  Claim C10. A hard drop always reaches \<open>lock_piece\<close>; \<open>m\<close> is the number of cells
  the piece went down. When \<open>m\<close> is not zero the piece's last action is \<open>move\<close> at that
  point, and \<open>is_tspin\<close>, which \<open>lock_piece\<close> calls with this piece and this tag,
  answers no on every board and for every number of lines, also when the piece had just
  been rotated. When \<open>m\<close> is zero the tag is the one from before the drop and the answer
  of \<open>is_tspin\<close> is the one for the piece as it was.
\<close>

theorem hard_drop_clears_rotate_tag:
  assumes "rot (cur g) < 4"
  shows "\<exists>gl m. hard_drop_descend g = Some gl \<and> y (cur gl) = y (cur g) + int m \<and>
           last_action (cur gl) = (if m = 0 then last_action (cur g) else Some move) \<and>
           (\<forall>b n. fst (is_tspin b (cur gl) n (last_action (cur gl)))
                  = (m = 0 \<and> fst (is_tspin b (cur g) n (last_action (cur g)))))"
proof -
  from hard_drop_descend_result[OF assms] obtain m where
    d: "hard_drop_descend g =
      Some ((if m = 0 then g
            else g\<lparr>cur := (cur g)\<lparr>y := y (cur g) + int m, last_action := Some move\<rparr>\<rparr>)
            \<lparr>drop_distance_hard := drop_distance_hard g + int m\<rparr>)" (is "_ = Some ?gl") ..
  show ?thesis
    using d by (intro exI[of _ ?gl] exI[of _ m]) (cases "m = 0"; simp add: is_tspin_def)
qed

text \<open>A T piece rotated at the top of an empty board and dropped 21 rows.\<close>

theorem hard_drop_clears_rotate_tag_witness:
  "rot (cur (drop_game (-1))) < 4 \<and>
   last_action (cur (drop_game (-1))) = Some rotate \<and>
   map_option (last_action \<circ> cur) (hard_drop_descend (drop_game (-1))) = Some (Some move)"
proof -
  have h: "rot (cur (drop_game (-1))) < 4" by code_simp
  have la: "last_action (cur (drop_game (-1))) = Some rotate" by code_simp
  have y0: "y (cur (drop_game (-1))) = -1" by code_simp
  have y1: "map_option (y \<circ> cur) (hard_drop_descend (drop_game (-1))) = Some 20" by code_simp
  from hard_drop_clears_rotate_tag[OF h] obtain gl m where
    d: "hard_drop_descend (drop_game (-1)) = Some gl"
    and ym: "y (cur gl) = y (cur (drop_game (-1))) + int m"
    and t: "last_action (cur gl) = (if m = 0 then last_action (cur (drop_game (-1))) else Some move)"
    by blast
  from d y1 ym y0 have "m \<noteq> 0" by auto
  with t d h la show ?thesis by simp
qed

text \<open>The same piece already on the floor: no travel, the tag stays \<open>rotate\<close>.\<close>

lemma hard_drop_zero_travel:
  "map_option (y \<circ> cur) (hard_drop_descend (drop_game 20)) = Some 20 \<and>
   map_option (last_action \<circ> cur) (hard_drop_descend (drop_game 20)) = Some (Some rotate)"
  by code_simp

text \<open>
  Claim C3, as the code has it. \<open>hard_drop\<close> adds the number \<open>m\<close> of cells travelled to
  \<open>drop_distance_hard\<close>, one unit per cell and not two; the lock then adds
  \<open>drop_distance_soft * 1 + drop_distance_hard * 2\<close> to the score, which makes two points
  per hard-dropped cell, and sets both credits to zero. They are still zero when
  \<open>hard_drop\<close> returns, and the score is then the one left by the line clear that follows.
\<close>

theorem hard_drop_credit:
  assumes "rot (cur g) < 4" and "queue_ready g"
  shows "\<exists>gl m. hard_drop_descend g = Some gl \<and> y (cur gl) = y (cur g) + int m \<and>
           drop_distance_hard gl = drop_distance_hard g + int m \<and>
           drop_distance_soft gl = drop_distance_soft g \<and>
           score gl = score g \<and>
           score (lock_and_credit gl)
             = score g + (drop_distance_soft g * 1 + (drop_distance_hard g + int m) * 2) \<and>
           drop_distance_soft (lock_and_credit gl) = 0 \<and>
           drop_distance_hard (lock_and_credit gl) = 0 \<and>
           (\<exists>g'. hard_drop g = Some g' \<and> drop_distance_soft g' = 0 \<and> drop_distance_hard g' = 0 \<and>
                 score g' = score (clear_and_score (lock_and_credit gl)))"
proof -
  from hard_drop_descend_result[OF assms(1)] obtain m where
    d: "hard_drop_descend g =
      Some ((if m = 0 then g
            else g\<lparr>cur := (cur g)\<lparr>y := y (cur g) + int m, last_action := Some move\<rparr>\<rparr>)
            \<lparr>drop_distance_hard := drop_distance_hard g + int m\<rparr>)" (is "_ = Some ?gl") ..
  have qr: "queue_ready (clear_and_score (lock_and_credit ?gl))"
    using assms(2) by (cases "m = 0") (simp_all add: queue_ready_def)
  from spawn_returns[OF qr] obtain g' where
    g': "spawn (clear_and_score (lock_and_credit ?gl)) = Some g'"
      "score g' = score (clear_and_score (lock_and_credit ?gl))"
      "drop_distance_soft g' = drop_distance_soft (clear_and_score (lock_and_credit ?gl))"
      "drop_distance_hard g' = drop_distance_hard (clear_and_score (lock_and_credit ?gl))"
    by auto
  have "hard_drop g = Some g'"
    using d g'(1) by (simp add: hard_drop_def lock_piece_def)
  with g'(2,3,4) d show ?thesis
    by (intro exI[of _ ?gl] exI[of _ m]) (cases "m = 0"; simp add: lock_and_credit_def)
qed

theorem hard_drop_credit_witness:
  "rot (cur (drop_game (-1))) < 4 \<and> queue_ready (drop_game (-1)) \<and>
   (\<exists>gl m. hard_drop_descend (drop_game (-1)) = Some gl \<and>
      drop_distance_hard gl = drop_distance_hard (drop_game (-1)) + int m \<and>
      score (lock_and_credit gl)
        = score (drop_game (-1)) + (drop_distance_soft (drop_game (-1)) * 1
            + (drop_distance_hard (drop_game (-1)) + int m) * 2))"
proof -
  have h1: "rot (cur (drop_game (-1))) < 4" by code_simp
  have h2: "queue_ready (drop_game (-1))" by code_simp
  from hard_drop_credit[OF h1 h2] h1 h2 show ?thesis by blast
qed

text \<open>
  Claim C3 as stated fails: a T piece dropped from row \<open>-1\<close> to row \<open>20\<close> of an empty
  board travels 21 cells; the pending hard-drop credit at lock time is 21, not 42, and the
  score after the lock is 42 (the claim's two sentences together give 84).
\<close>

theorem hard_drop_credit_counterexample:
  "y (cur (drop_game (-1))) = -1 \<and>
   drop_distance_hard (drop_game (-1)) = 0 \<and>
   score (drop_game (-1)) = 0 \<and>
   map_option (y \<circ> cur) (hard_drop_descend (drop_game (-1))) = Some 20 \<and>
   map_option drop_distance_hard (hard_drop_descend (drop_game (-1))) = Some 21 \<and>
   map_option drop_distance_hard (hard_drop_descend (drop_game (-1))) \<noteq> Some (2 * 21) \<and>
   map_option score (hard_drop (drop_game (-1))) = Some 42"
  by code_simp

section \<open>Lock delay\<close>

text \<open>One intent either leaves timer and counter alone or resets the timer and counts it.\<close>

lemma try_move_timer:
  "(lock_timer (fst (try_move g dx dy)) = lock_timer g \<and>
      lock_reset_count (fst (try_move g dx dy)) = lock_reset_count g) \<or>
   (lock_timer (fst (try_move g dx dy)) = Some 0 \<and>
      lock_reset_count (fst (try_move g dx dy)) = lock_reset_count g + 1 \<and>
      lock_reset_count g < LOCK_RESETS_MAX)"
  by (simp add: try_move_def Let_def)

lemma try_rotate_timer:
  assumes "try_rotate g dir = Some r"
  shows "(lock_timer (fst r) = lock_timer g \<and> lock_reset_count (fst r) = lock_reset_count g) \<or>
         (lock_timer (fst r) = Some 0 \<and> lock_reset_count (fst r) = lock_reset_count g + 1 \<and>
            lock_reset_count g < LOCK_RESETS_MAX)"
  using assms by (auto simp: try_rotate_def Let_def split: if_splits option.splits)

lemma session_ok_queue_ready: "session_ok g \<Longrightarrow> queue_ready g"
  by (simp add: session_ok_def queue_ready_def)

lemma Bag_pop_session:
  assumes "\<forall>n. r n \<noteq> []"
  shows "\<exists>k bg1 r1. Bag_pop r bg = Some (k, bg1, r1) \<and> (\<forall>n. r1 n \<noteq> [])"
proof (cases "pool bg")
  case Nil
  from assms obtain k rest where "r 0 = k # rest" by (cases "r 0") auto
  with Nil assms show ?thesis by (simp add: Bag_pop_def Bag_refill_def)
next
  case (Cons k rest)
  with assms show ?thesis by (simp add: Bag_pop_def)
qed

lemma spawn_session:
  assumes "items (queue g) \<noteq> []" and "\<forall>n. rand g n \<noteq> []"
  shows "\<exists>g'. spawn g = Some g' \<and> session_ok g' \<and> lock_reset_count g' = 0"
proof -
  from assms(1) obtain n rest where it: "items (queue g) = n # rest"
    by (cases "items (queue g)") auto
  from Bag_pop_session[OF assms(2), of "bag (queue g)"]
  obtain k bg1 r1 where bp: "Bag_pop (rand g) (bag (queue g)) = Some (k, bg1, r1)"
    and r1: "\<forall>n. r1 n \<noteq> []" by blast
  have qn: "Queue_next (rand g) (queue g) = Some (n, (queue g)\<lparr>items := rest @ [k], bag := bg1\<rparr>, r1)"
    by (simp add: Queue_next_def it bp)
  have r0: "rot (Piece n) < 4" by (simp add: Piece_def)
  from ghost_loop_returns[OF r0, of "board g"] obtain gy where "ghost_loop (board g) (Piece n) = Some gy" ..
  with r1 r0 show ?thesis
    by (cases "collide (board g) (Piece n)")
       (simp_all add: spawn_def qn Let_def compute_ghost_y_def session_ok_def)
qed

lemma cur_clear_and_score [simp]: "cur (clear_and_score g) = cur g"
  by (simp add: clear_and_score_def score_lines_def Let_def split: prod.splits option.splits)

lemma lock_piece_session:
  assumes "session_ok g"
  shows "\<exists>g'. lock_piece g = Some g' \<and> session_ok g' \<and> lock_reset_count g' = 0"
  unfolding lock_piece_def
  by (rule spawn_session) (use assms in \<open>simp_all add: session_ok_def\<close>)

lemma try_move_session [simp]: "session_ok (fst (try_move g dx dy)) = session_ok g"
  by (simp add: try_move_def Let_def session_ok_def)

lemma rotate_keeps_rot4:
  assumes "rot p < 4"
  shows "rot (fst (rotate_with_kick b p dir)) < 4"
proof (cases "snd (rotate_with_kick b p dir)")
  case True
  then show ?thesis by (rule rotate_success_rot)
next
  case False
  show ?thesis
  proof (cases "kind p = KO \<and> (dir = 1 \<or> dir = -1)")
    case True
    then show ?thesis
      by (auto simp: rotate_with_kick_def Let_def)
  next
    case notO: False
    show ?thesis
    proof (cases "dir = 2")
      case True
      with notO assms show ?thesis
        by (simp add: rotate_with_kick_def Let_def try_kicks_180_rot)
    next
      case False
      with notO assms show ?thesis
        by (auto simp: rotate_with_kick_def Let_def try_kicks_rot)
    qed
  qed
qed

lemma try_rotate_session:
  assumes "session_ok g" and "try_rotate g dir = Some r"
  shows "session_ok (fst r)"
  using assms rotate_keeps_rot4[of "cur g" "board g" dir]
  by (auto simp: try_rotate_def Let_def session_ok_def split: if_splits option.splits)

lemma apply_intent_step:
  assumes "session_ok g"
  shows "\<exists>g1. apply_intent g i = Some g1 \<and> session_ok g1 \<and>
     ((lock_timer g1 = lock_timer g \<and> lock_reset_count g1 = lock_reset_count g) \<or>
      (lock_timer g1 = Some 0 \<and> lock_reset_count g1 = lock_reset_count g + 1 \<and>
         lock_reset_count g < LOCK_RESETS_MAX))"
proof (cases i)
  case (Move dx dy)
  then show ?thesis using try_move_timer[of g dx dy] assms by (simp add: apply_intent_def)
next
  case (Rotate dir)
  from try_rotate_returns obtain r where r: "try_rotate g dir = Some r" ..
  with Rotate try_rotate_timer[OF r] try_rotate_session[OF assms r] show ?thesis
    by (simp add: apply_intent_def)
next
  case SoftDrop
  have "session_ok (fst (soft_drop g))"
    using assms try_move_session[of g 0 1] by (simp add: soft_drop_def Let_def session_ok_def)
  with SoftDrop show ?thesis using try_move_timer[of g 0 1]
    by (auto simp: apply_intent_def soft_drop_def Let_def)
qed

lemma update_fall_keeps [simp]:
  "session_ok (update_fall g dt) = session_ok g"
  "lock_reset_count (update_fall g dt) = lock_reset_count g"
proof -
  have a: "session_ok (g'\<lparr>gravity_timer := v\<rparr>) = session_ok g'" for g' :: game and v
    by (simp add: session_ok_def)
  have b: "session_ok (g'\<lparr>lock_timer := v\<rparr>) = session_ok g'" for g' :: game and v
    by (simp add: session_ok_def)
  have c: "session_ok (g'\<lparr>clear_anim := v\<rparr>) = session_ok g'" for g' :: game and v
    by (simp add: session_ok_def)
  show "session_ok (update_fall g dt) = session_ok g"
    by (simp add: update_fall_def Let_def a b c split: option.splits prod.splits)
  have d: "lock_reset_count (fst (try_move g' 0 1)) = lock_reset_count g'" for g'
    by (simp add: try_move_down)
  show "lock_reset_count (update_fall g dt) = lock_reset_count g"
    by (simp add: update_fall_def Let_def d split: option.splits prod.splits)
qed

lemma update_lock_step:
  assumes "session_ok g"
  shows "\<exists>g'. update_lock g dt = Some g' \<and> session_ok g' \<and>
           lock_reset_count g' = (if lock_due g dt then 0 else lock_reset_count g)"
proof (cases "lock_due g dt")
  case True
  then obtain t where t: "on_ground g" "lock_timer g = Some t" "LOCK_DELAY \<le> t + dt"
    by (auto simp: lock_due_def split: option.splits)
  have "session_ok (g\<lparr>lock_timer := Some (t + dt)\<rparr>)"
    using assms by (simp add: session_ok_def)
  from lock_piece_session[OF this] obtain g2 where
    "lock_piece (g\<lparr>lock_timer := Some (t + dt)\<rparr>) = Some g2" "session_ok g2" "lock_reset_count g2 = 0"
    by blast
  with t True show ?thesis
    by (simp add: update_lock_def Let_def session_ok_def)
next
  case False
  with assms show ?thesis
    by (auto simp: update_lock_def lock_due_def Let_def session_ok_def split: option.splits)
qed

lemma update_step:
  assumes "session_ok g"
  shows "\<exists>g'. update g dt = Some g' \<and> session_ok g' \<and>
           lock_reset_count g' = (if tick_locks g dt then 0 else lock_reset_count g)"
proof (cases "paused g \<or> game_over g")
  case True
  with assms show ?thesis by (simp add: update_def tick_locks_def)
next
  case False
  have "session_ok (update_fall g dt)" using assms by simp
  from update_lock_step[OF this, of dt] obtain g1 where
    g1: "update_lock (update_fall g dt) dt = Some g1" "session_ok g1"
      "lock_reset_count g1 = (if lock_due (update_fall g dt) dt then 0 else lock_reset_count g)"
    by auto
  from g1(2) have "rot (cur g1) < 4" by (simp add: session_ok_def)
  from ghost_loop_returns[OF this, of "board g1"] obtain gy where
    "compute_ghost_y g1 = Some gy" by (auto simp: compute_ghost_y_def)
  with False g1 show ?thesis
    by (simp add: update_def tick_locks_def session_ok_def)
qed

lemma intents_at_limit:
  assumes "session_ok g" and "lock_reset_count g = LOCK_RESETS_MAX"
  shows "\<exists>g'. run g (map Intent ins) = Some g' \<and>
           lock_timer g' = lock_timer g \<and> lock_reset_count g' = lock_reset_count g"
  using assms
proof (induction ins arbitrary: g)
  case Nil
  then show ?case by simp
next
  case (Cons i ins)
  from apply_intent_step[OF Cons.prems(1), of i] Cons.prems(2) obtain g1 where
    g1: "apply_intent g i = Some g1" "session_ok g1"
      "lock_timer g1 = lock_timer g" "lock_reset_count g1 = lock_reset_count g"
    by auto
  from Cons.IH[OF g1(2)] g1(4) Cons.prems(2) obtain g' where
    "run g1 (map Intent ins) = Some g'" "lock_timer g' = lock_timer g1"
    "lock_reset_count g' = lock_reset_count g1"
    by auto
  with g1 show ?case by (simp add: apply_event_def)
qed

lemma run_bound:
  assumes "session_ok g" and "lock_reset_count g \<le> LOCK_RESETS_MAX"
  shows "\<exists>g'. run g evs = Some g' \<and> session_ok g' \<and>
           lock_reset_count g' \<le> LOCK_RESETS_MAX \<and>
           int (intent_resets g evs)
             \<le> lock_reset_count g' - lock_reset_count g + LOCK_RESETS_MAX * int (locks_in g evs)"
  using assms
proof (induction evs arbitrary: g)
  case Nil
  then show ?case by simp
next
  case (Cons e evs)
  show ?case
  proof (cases e)
    case (Intent i)
    from apply_intent_step[OF Cons.prems(1), of i] obtain g1 where
      g1: "apply_intent g i = Some g1" "session_ok g1"
      and alt: "(lock_timer g1 = lock_timer g \<and> lock_reset_count g1 = lock_reset_count g) \<or>
        (lock_timer g1 = Some 0 \<and> lock_reset_count g1 = lock_reset_count g + 1 \<and>
           lock_reset_count g < LOCK_RESETS_MAX)"
      by blast
    from alt Cons.prems(2) have le: "lock_reset_count g1 \<le> LOCK_RESETS_MAX" by auto
    from Cons.IH[OF g1(2) le] obtain g' where
      g': "run g1 evs = Some g'" "session_ok g'" "lock_reset_count g' \<le> LOCK_RESETS_MAX"
        "int (intent_resets g1 evs)
           \<le> lock_reset_count g' - lock_reset_count g1 + LOCK_RESETS_MAX * int (locks_in g1 evs)"
      by blast
    from alt show ?thesis
    proof
      assume "lock_timer g1 = lock_timer g \<and> lock_reset_count g1 = lock_reset_count g"
      with Intent g1 g' show ?thesis
        by (intro exI[of _ g']) (simp add: apply_event_def)
    next
      assume "lock_timer g1 = Some 0 \<and> lock_reset_count g1 = lock_reset_count g + 1 \<and>
           lock_reset_count g < LOCK_RESETS_MAX"
      with Intent g1 g' show ?thesis
        by (intro exI[of _ g']) (simp add: apply_event_def)
    qed
  next
    case (Tick dt)
    from update_step[OF Cons.prems(1), of dt] obtain g1 where
      g1: "update g dt = Some g1" "session_ok g1"
        "lock_reset_count g1 = (if tick_locks g dt then 0 else lock_reset_count g)"
      by blast
    from g1(3) Cons.prems(2) have le: "lock_reset_count g1 \<le> LOCK_RESETS_MAX"
      by (simp add: LOCK_RESETS_MAX_def split: if_splits)
    from Cons.IH[OF g1(2) le] obtain g' where
      g': "run g1 evs = Some g'" "session_ok g'" "lock_reset_count g' \<le> LOCK_RESETS_MAX"
        "int (intent_resets g1 evs)
           \<le> lock_reset_count g' - lock_reset_count g1 + LOCK_RESETS_MAX * int (locks_in g1 evs)"
      by blast
    show ?thesis
    proof (cases "tick_locks g dt")
      case True
      with Tick g1 g' Cons.prems(2) show ?thesis
        by (intro exI[of _ g']) (simp add: apply_event_def algebra_simps)
    next
      case False
      with Tick g1 g' show ?thesis
        by (intro exI[of _ g']) (simp add: apply_event_def)
    qed
  qed
qed

lemma update_lock_timer:
  assumes "session_ok g"
  shows "map_option lock_timer (update_lock g dt)
         = Some (if \<not> on_ground g then None
                 else case lock_timer g of
                        None \<Rightarrow> Some 0
                      | Some t \<Rightarrow> if LOCK_DELAY \<le> t + dt then None else Some (t + dt))"
proof (cases "lock_due g dt")
  case True
  then obtain t where t: "on_ground g" "lock_timer g = Some t" "LOCK_DELAY \<le> t + dt"
    by (auto simp: lock_due_def split: option.splits)
  have "session_ok (g\<lparr>lock_timer := Some (t + dt)\<rparr>)"
    using assms by (simp add: session_ok_def)
  from lock_piece_session[OF this] obtain g2 where
    "lock_piece (g\<lparr>lock_timer := Some (t + dt)\<rparr>) = Some g2"
    by blast
  with t show ?thesis
    by (simp add: update_lock_def Let_def)
next
  case False
  then show ?thesis
    by (auto simp: update_lock_def lock_due_def Let_def split: option.splits)
qed

text \<open>
  Claim C4, as the code has it. In any run of a session, intents and ticks in any order,
  the reset counter never exceeds 15, and the intents change the lock timer at most
  \<open>15 - lock_reset_count\<close> times while no tick locks the piece, that is, during the
  life of one piece (every lock allows 15 more, for the next piece). Once 15 resets are
  used, no move, rotation or soft drop, successful or not, changes the timer or the
  counter. The timed update is not bound by the counter: whatever its value, the timer
  is cleared when the piece is not on the ground, started at zero when it is and no
  timer runs, and advanced by \<open>dt\<close> otherwise, the piece locking once
  \<open>LOCK_DELAY\<close> is reached.
\<close>

theorem lock_reset_limit:
  assumes "session_ok g" and "lock_reset_count g \<le> LOCK_RESETS_MAX"
  shows "(\<exists>g'. run g evs = Some g' \<and> lock_reset_count g' \<le> LOCK_RESETS_MAX \<and>
            int (intent_resets g evs)
              \<le> lock_reset_count g' - lock_reset_count g + LOCK_RESETS_MAX * int (locks_in g evs) \<and>
            (locks_in g evs = 0 \<longrightarrow>
               int (intent_resets g evs) \<le> LOCK_RESETS_MAX - lock_reset_count g)) \<and>
         (lock_reset_count g = LOCK_RESETS_MAX \<longrightarrow>
            (\<exists>g'. run g (map Intent ins) = Some g' \<and>
               lock_timer g' = lock_timer g \<and> lock_reset_count g' = lock_reset_count g)) \<and>
         map_option lock_timer (update_lock g dt)
           = Some (if \<not> on_ground g then None
                   else case lock_timer g of
                          None \<Rightarrow> Some 0
                        | Some t \<Rightarrow> if LOCK_DELAY \<le> t + dt then None else Some (t + dt))"
proof -
  from run_bound[OF assms, of evs] obtain g' where
    g': "run g evs = Some g'" "lock_reset_count g' \<le> LOCK_RESETS_MAX"
      "int (intent_resets g evs)
         \<le> lock_reset_count g' - lock_reset_count g + LOCK_RESETS_MAX * int (locks_in g evs)"
    by blast
  then have first: "\<exists>g'. run g evs = Some g' \<and> lock_reset_count g' \<le> LOCK_RESETS_MAX \<and>
            int (intent_resets g evs)
              \<le> lock_reset_count g' - lock_reset_count g + LOCK_RESETS_MAX * int (locks_in g evs) \<and>
            (locks_in g evs = 0 \<longrightarrow>
               int (intent_resets g evs) \<le> LOCK_RESETS_MAX - lock_reset_count g)"
    by (intro exI[of _ g']) auto
  from intents_at_limit[OF assms(1), of ins]
  have second: "lock_reset_count g = LOCK_RESETS_MAX \<longrightarrow>
            (\<exists>g'. run g (map Intent ins) = Some g' \<and>
               lock_timer g' = lock_timer g \<and> lock_reset_count g' = lock_reset_count g)"
    by blast
  from first second update_lock_timer[OF assms(1), of dt] show ?thesis by blast
qed

text \<open>
  Fifteen resets used: a move, a tick and a rotation reset nothing, and three intents
  leave the timer at 0.25.
\<close>

theorem lock_reset_limit_witness:
  "session_ok stall_game \<and>
   lock_reset_count stall_game = LOCK_RESETS_MAX \<and>
   snd (try_move stall_game 1 0) \<and>
   locks_in stall_game [Intent (Move 1 0), Tick (1 / 8), Intent (Rotate 1)] = 0 \<and>
   int (intent_resets stall_game [Intent (Move 1 0), Tick (1 / 8), Intent (Rotate 1)]) \<le> 0 \<and>
   (\<exists>g'. run stall_game (map Intent [Move 1 0, Rotate 1, Move (-1) 0]) = Some g' \<and>
         lock_timer g' = Some (1 / 4))"
proof -
  have h1: "session_ok stall_game"
    by (simp add: session_ok_def stall_game_def demo_game_def piece_at_def kinds_def)
  have eq: "lock_reset_count stall_game = LOCK_RESETS_MAX"
    by (simp add: stall_game_def LOCK_RESETS_MAX_def)
  then have h2: "lock_reset_count stall_game \<le> LOCK_RESETS_MAX" by simp
  have mv: "snd (try_move stall_game 1 0)" by code_simp
  have lk: "locks_in stall_game [Intent (Move 1 0), Tick (1 / 8), Intent (Rotate 1)] = 0"
    by code_simp
  have t: "lock_timer stall_game = Some (1 / 4)" by (simp add: stall_game_def)
  note th = lock_reset_limit[OF h1 h2,
      of "[Intent (Move 1 0), Tick (1 / 8), Intent (Rotate 1)]" "[Move 1 0, Rotate 1, Move (-1) 0]" 0]
  from th lk eq have r: "int (intent_resets stall_game [Intent (Move 1 0), Tick (1 / 8), Intent (Rotate 1)]) \<le> 0"
    by auto
  from th eq t have i: "\<exists>g'. run stall_game (map Intent [Move 1 0, Rotate 1, Move (-1) 0]) = Some g' \<and>
         lock_timer g' = Some (1 / 4)"
    by auto
  from h1 eq mv lk r i show ?thesis by blast
qed

text \<open>
  Claim C4 as stated fails in its last part. The T piece of \<open>stall_game\<close> lies on the
  floor with all 15 resets used and 0.25 s on the timer; left alone it locks at the next
  tick of 0.25 s (the active piece is then the next one of the queue). Two more successful
  rotations, each made on the ground, leave the timer unchanged but lift the piece to
  \<open>(2, 19)\<close>, off the ground: the next tick clears the timer instead of locking, the
  board stays empty, and after three more ticks the piece has landed with the timer
  restarted at zero. (The timer values and their sums are exact as floats; the gravity
  interval 0.8 enters only through the comparisons of 0.25, 0.5, 0.75 and 1.0 with it.)
\<close>

theorem lock_reset_limit_counterexample:
  "lock_reset_count stall_game = LOCK_RESETS_MAX \<and>
   on_ground stall_game \<and>
   lock_timer stall_game = Some (1 / 4) \<and>
   map_option (kind \<circ> cur) (run stall_game [Tick (1 / 4)]) = Some KS \<and>
   map_option on_ground (run stall_game [Intent (Rotate 1)]) = Some True \<and>
   map_option (rot \<circ> cur) (run stall_game [Intent (Rotate 1)]) = Some 1 \<and>
   map_option (rot \<circ> cur) (run stall_game [Intent (Rotate 1), Intent (Rotate (-1))]) = Some 0 \<and>
   map_option (x \<circ> cur) (run stall_game [Intent (Rotate 1), Intent (Rotate (-1))]) = Some 2 \<and>
   map_option (y \<circ> cur) (run stall_game [Intent (Rotate 1), Intent (Rotate (-1))]) = Some 19 \<and>
   map_option lock_timer (run stall_game [Intent (Rotate 1), Intent (Rotate (-1))])
     = Some (Some (1 / 4)) \<and>
   map_option lock_reset_count (run stall_game [Intent (Rotate 1), Intent (Rotate (-1))])
     = Some 15 \<and>
   map_option (kind \<circ> cur)
     (run stall_game [Intent (Rotate 1), Intent (Rotate (-1)), Tick (1 / 4)]) = Some KT \<and>
   map_option board
     (run stall_game [Intent (Rotate 1), Intent (Rotate (-1)), Tick (1 / 4)]) = Some Board \<and>
   map_option lock_timer
     (run stall_game [Intent (Rotate 1), Intent (Rotate (-1)), Tick (1 / 4)]) = Some None \<and>
   map_option (kind \<circ> cur)
     (run stall_game [Intent (Rotate 1), Intent (Rotate (-1)),
                      Tick (1 / 4), Tick (1 / 4), Tick (1 / 4), Tick (1 / 4)]) = Some KT \<and>
   map_option board
     (run stall_game [Intent (Rotate 1), Intent (Rotate (-1)),
                      Tick (1 / 4), Tick (1 / 4), Tick (1 / 4), Tick (1 / 4)]) = Some Board \<and>
   map_option lock_timer
     (run stall_game [Intent (Rotate 1), Intent (Rotate (-1)),
                      Tick (1 / 4), Tick (1 / 4), Tick (1 / 4), Tick (1 / 4)]) = Some (Some 0)"
  by code_simp

lemma grounded_no_down: "on_ground g \<Longrightarrow> \<not> snd (try_move g 0 1)"
  by (simp add: try_move_down on_ground_def)

lemma down_move_keeps_timer:
  "lock_timer (fst (try_move g 0 1)) = lock_timer g \<and>
   lock_reset_count (fst (try_move g 0 1)) = lock_reset_count g"
  by (simp add: try_move_down)

text \<open>
  Claim C5. For a piece that is on the ground (\<open>on_ground\<close>) with the lock timer running
  and fewer than 15 resets used, every horizontal move and every down move that succeeds
  leaves the timer at zero and the piece's last action \<open>move\<close>. The horizontal moves are
  the ones that occur: \<open>try_move\<close> resets the timer under the test \<open>dy == 0\<close>, and a piece
  on the ground cannot complete a down move (\<open>grounded_no_down\<close>); a down move never
  writes the timer or the counter (\<open>down_move_keeps_timer\<close>).
\<close>

theorem grounded_move_resets_timer:
  assumes "on_ground g" and "lock_timer g \<noteq> None" and "lock_reset_count g < LOCK_RESETS_MAX"
    and "(dy = 0 \<and> (dx = 1 \<or> dx = -1)) \<or> (dx = 0 \<and> dy = 1)"
    and "snd (try_move g dx dy)"
  shows "lock_timer (fst (try_move g dx dy)) = Some 0 \<and>
         last_action (cur (fst (try_move g dx dy))) = Some move"
proof -
  from assms(1,5) grounded_no_down[OF assms(1)] have "\<not> (dx = 0 \<and> dy = 1)" by auto
  with assms(4) have "dy = 0" by auto
  with assms(2,3,5) show ?thesis
    by (auto simp: try_move_def Let_def split: if_splits)
qed

theorem grounded_move_resets_timer_witness:
  "on_ground (floor_game 3) \<and> lock_timer (floor_game 3) = Some (3 / 10) \<and>
   lock_reset_count (floor_game 3) < LOCK_RESETS_MAX \<and>
   snd (try_move (floor_game 3) 1 0) \<and>
   lock_timer (fst (try_move (floor_game 3) 1 0)) = Some 0 \<and>
   last_action (cur (fst (try_move (floor_game 3) 1 0))) = Some move"
proof -
  have h1: "on_ground (floor_game 3)" by code_simp
  have t: "lock_timer (floor_game 3) = Some (3 / 10)" by (simp add: floor_game_def)
  then have h2: "lock_timer (floor_game 3) \<noteq> None" by simp
  have h3: "lock_reset_count (floor_game 3) < LOCK_RESETS_MAX"
    by (simp add: floor_game_def LOCK_RESETS_MAX_def)
  have h4: "((0::int) = 0 \<and> ((1::int) = 1 \<or> (1::int) = -1)) \<or> ((1::int) = 0 \<and> (0::int) = 1)" by simp
  have h5: "snd (try_move (floor_game 3) 1 0)" by code_simp
  from grounded_move_resets_timer[OF h1 h2 h3 h4 h5] h1 t h3 h5 show ?thesis by simp
qed

section \<open>Scoring a lock\<close>

text \<open>
  Claim C1. A T piece whose last action is a rotation locks and exactly one line is
  cleared; \<open>b1\<close> is the board after the clear. If at least three of the four corners
  around the centre \<open>(x + 1, y + 1)\<close> are occupied on \<open>b1\<close> (a corner outside the grid
  counts as occupied) and exactly one of the two front corners of the rotation state is,
  then \<open>is_tspin\<close> answers (T-spin, mini), the lock is classified \<open>tspin_mini_single\<close>,
  whose table value is 200, and \<open>lock_piece\<close> returns with the score raised by the drop
  credits, by 200 (or 300 when the back-to-back flag was set) and by 50 times the new
  combo counter.
\<close>

theorem tspin_mini_single_scored:
  assumes "kind (cur g) = KT" and "last_action (cur g) = Some rotate" and "rot (cur g) < 4"
    and "clear_lines (lock (board g) (cur g)) = (b1, 1, idx)"
    and "3 \<le> length (filter (occupied_at b1) (corners (cur g)))"
    and "length (filter (occupied_at b1) (front (cur g))) = 1"
    and "queue_ready g"
  shows "is_tspin b1 (cur g) 1 (last_action (cur g)) = (True, True) \<and>
         fst (classify (fst (is_tspin b1 (cur g) 1 (last_action (cur g))))
                       (snd (is_tspin b1 (cur g) 1 (last_action (cur g)))) 1)
           = Some tspin_mini_single \<and>
         SCORE_TABLE tspin_mini_single = 200 \<and>
         (\<exists>g'. lock_piece g = Some g' \<and> b2b g' \<and>
               combo g' = (if combo g \<ge> 0 then combo g + 1 else 0) \<and>
               score g' = score g + (drop_distance_soft g * 1 + drop_distance_hard g * 2)
                          + ((if b2b g then 200 * 3 div 2 else 200) + 50 * combo g'))"
proof -
  have ts: "is_tspin b1 (cur g) 1 (last_action (cur g)) = (True, True)"
    using assms(1,2,5,6) by (simp add: is_tspin_def Let_def)
  have cl: "classify True True 1 = (Some tspin_mini_single, True)"
    by (simp add: classify_def)
  let ?s = "clear_and_score (lock_and_credit g)"
  have sc: "score ?s = score g + (drop_distance_soft g * 1 + drop_distance_hard g * 2)
                          + ((if b2b g then 200 * 3 div 2 else 200)
                             + 50 * (if combo g \<ge> 0 then combo g + 1 else 0))"
    and bb: "b2b ?s" and cb: "combo ?s = (if combo g \<ge> 0 then combo g + 1 else 0)"
    using assms(4) ts cl
    by (simp_all add: clear_and_score_def lock_and_credit_def score_lines_def Let_def)
  have qr: "queue_ready ?s" using assms(7) by simp
  from spawn_returns[OF qr] obtain g' where
    "spawn ?s = Some g'" "score g' = score ?s" "b2b g' = b2b ?s" "combo g' = combo ?s"
    by auto
  with sc bb cb ts cl show ?thesis
    by (simp add: lock_piece_def)
qed

text \<open>
  The T piece of \<open>tspin_game\<close> completes row 21; after the clear the corners below the
  centre are outside the grid and one of the two above it holds a block.
\<close>

theorem tspin_mini_single_witness:
  "kind (cur tspin_game) = KT \<and> last_action (cur tspin_game) = Some rotate \<and>
   fst (snd (clear_lines (lock (board tspin_game) (cur tspin_game)))) = 1 \<and>
   (\<exists>g'. lock_piece tspin_game = Some g' \<and> score g' = 200)"
proof -
  let ?b1 = "fst (clear_lines (lock (board tspin_game) (cur tspin_game)))"
  have h1: "kind (cur tspin_game) = KT" by code_simp
  have h2: "last_action (cur tspin_game) = Some rotate" by code_simp
  have h3: "rot (cur tspin_game) < 4" by code_simp
  have h4: "clear_lines (lock (board tspin_game) (cur tspin_game)) = (?b1, 1, [21])" by code_simp
  have h5: "3 \<le> length (filter (occupied_at ?b1) (corners (cur tspin_game)))" by code_simp
  have h6: "length (filter (occupied_at ?b1) (front (cur tspin_game))) = 1" by code_simp
  have h7: "queue_ready tspin_game" by code_simp
  have c: "fst (snd (clear_lines (lock (board tspin_game) (cur tspin_game)))) = 1" by code_simp
  have s: "score tspin_game = 0" "combo tspin_game = -1" "b2b tspin_game = False"
    "drop_distance_soft tspin_game = 0" "drop_distance_hard tspin_game = 0"
    by (simp_all add: tspin_game_def demo_game_def)
  show ?thesis
    using tspin_mini_single_scored[OF h1 h2 h3 h4 h5 h6 h7] h1 h2 c s by auto
qed

lemma lock_cell_other_row: "snd c \<noteq> int i \<Longrightarrow> lock_cell k c b ! i = b ! i"
  by (cases c) (auto simp: lock_cell_def)

lemma lock_other_row:
  "\<forall>c \<in> set cs. snd c \<noteq> int i \<Longrightarrow> fold (lock_cell k) cs b ! i = b ! i"
  by (induction cs arbitrary: b) (simp_all add: lock_cell_other_row)

text \<open>Where no row was full before, a T piece completes at most three rows.\<close>

lemma KT_clears_at_most_3:
  assumes "kind p = KT" and "rot p < 4" and "\<forall>i<ROWS. \<not> row_full (b ! i)"
  shows "length [i \<leftarrow> [0..<ROWS]. row_full (lock b p ! i)] \<le> 3"
proof -
  have sub: "{i. row_full (lock b p ! i)} \<inter> set [0..<ROWS]
             \<subseteq> {nat (y p), nat (y p + 1), nat (y p + 2)}"
  proof
    fix i assume "i \<in> {i. row_full (lock b p ! i)} \<inter> set [0..<ROWS]"
    then have full: "row_full (lock b p ! i)" and i: "i < ROWS" by auto
    have "\<exists>c \<in> set (cells p). snd c = int i"
    proof (rule ccontr)
      assume "\<not> (\<exists>c \<in> set (cells p). snd c = int i)"
      then have "lock b p ! i = b ! i"
        by (simp add: lock_def lock_other_row)
      with full assms(3) i show False by simp
    qed
    then obtain c where "c \<in> set (cells p)" "snd c = int i" by blast
    with cells_KT_rows[OF assms(1,2)] have "int i = y p \<or> int i = y p + 1 \<or> int i = y p + 2"
      by metis
    then show "i \<in> {nat (y p), nat (y p + 1), nat (y p + 2)}" by auto
  qed
  have "length [i \<leftarrow> [0..<ROWS]. row_full (lock b p ! i)]
        = card ({i. row_full (lock b p ! i)} \<inter> set [0..<ROWS])"
    by (rule distinct_length_filter) simp
  also have "\<dots> \<le> card {nat (y p), nat (y p + 1), nat (y p + 2)}"
    by (rule card_mono[OF _ sub]) simp
  also have "\<dots> \<le> 3"
    by (simp add: card_insert_if)
  finally show ?thesis .
qed

lemma no_full_rows_after_clear:
  assumes "wf_board b" and "i < ROWS"
  shows "\<not> row_full (fst (clear_lines b) ! i)"
proof -
  from assms(1) have len: "length b = ROWS" by (simp add: wf_board_def)
  let ?r = "replicate (length (filter row_full b)) empty_row @ filter (\<lambda>r. \<not> row_full r) b"
  have "length (filter row_full b) + length (filter (\<lambda>r. \<not> row_full r) b) = length b"
    by (rule sum_length_filter_compl)
  with len assms(2) have "i < length ?r" by simp
  then have "?r ! i \<in> set ?r" by (rule nth_mem)
  moreover have "\<not> row_full empty_row" by code_simp
  ultimately have "\<not> row_full (?r ! i)" by auto
  with clear_lines_eq[OF len] show ?thesis by simp
qed

lemma Board_no_full_rows: "list_all (\<lambda>i. \<not> row_full (Board ! i)) [0..<ROWS]"
  by code_simp

text \<open>
  Claim C2. With the back-to-back flag set, a lock that clears four lines adds
  \<open>int(800 * 1.5) = 1200\<close> and then 50 times the new combo counter to the score (after
  the drop credits), and the flag is set afterwards. The board before the lock has no
  full row: the board starts empty (\<open>Board_no_full_rows\<close>) and every lock is followed
  by \<open>clear_lines\<close>, which leaves none (\<open>no_full_rows_after_clear\<close>). So the four lines
  cannot come from a T piece, which spans three rows, and the clear is a tetris.
\<close>

theorem back_to_back_tetris:
  assumes "b2b g" and "rot (cur g) < 4"
    and "\<forall>i<ROWS. \<not> row_full (board g ! i)"
    and "clear_lines (lock (board g) (cur g)) = (b1, 4, idx)"
    and "queue_ready g"
  shows "SCORE_TABLE tetris * 3 div 2 = 1200 \<and>
         (\<exists>g'. lock_piece g = Some g' \<and> b2b g' \<and>
               combo g' = (if combo g \<ge> 0 then combo g + 1 else 0) \<and>
               score g' = score g + (drop_distance_soft g * 1 + drop_distance_hard g * 2)
                          + (1200 + 50 * combo g'))"
proof -
  have four: "length [i \<leftarrow> [0..<ROWS]. row_full (lock (board g) (cur g) ! i)] = 4"
    using assms(4) by (auto simp: clear_lines_def Let_def)
  have notT: "kind (cur g) \<noteq> KT"
    using KT_clears_at_most_3[OF _ assms(2,3)] four by auto
  then have ts: "is_tspin b1 (cur g) 4 (last_action (cur g)) = (False, False)"
    by (simp add: is_tspin_def)
  have cl: "classify False False 4 = (Some tetris, True)"
    by (simp add: classify_def)
  let ?s = "clear_and_score (lock_and_credit g)"
  have sc: "score ?s = score g + (drop_distance_soft g * 1 + drop_distance_hard g * 2)
                          + (1200 + 50 * (if combo g \<ge> 0 then combo g + 1 else 0))"
    and bb: "b2b ?s" and cb: "combo ?s = (if combo g \<ge> 0 then combo g + 1 else 0)"
    using assms(1,4) ts cl
    by (simp_all add: clear_and_score_def lock_and_credit_def score_lines_def Let_def)
  have qr: "queue_ready ?s" using assms(5) by simp
  from spawn_returns[OF qr] obtain g' where
    "spawn ?s = Some g'" "score g' = score ?s" "b2b g' = b2b ?s" "combo g' = combo ?s"
    by auto
  with sc bb cb show ?thesis
    by (simp add: lock_piece_def)
qed

text \<open>A vertical I piece completes rows 18 to 21; the combo counter goes from 0 to 1.\<close>

theorem back_to_back_tetris_witness:
  "b2b tetris_game \<and> fst (snd (clear_lines (lock (board tetris_game) (cur tetris_game)))) = 4 \<and>
   (\<exists>g'. lock_piece tetris_game = Some g' \<and> b2b g' \<and> score g' = 1250)"
proof -
  let ?b1 = "fst (clear_lines (lock (board tetris_game) (cur tetris_game)))"
  have h1: "b2b tetris_game" by (simp add: tetris_game_def)
  have h2: "rot (cur tetris_game) < 4" by code_simp
  have h3a: "list_all (\<lambda>i. \<not> row_full (board tetris_game ! i)) [0..<ROWS]" by code_simp
  then have h3: "\<forall>i<ROWS. \<not> row_full (board tetris_game ! i)" by (simp add: list_all_iff)
  have h4: "clear_lines (lock (board tetris_game) (cur tetris_game)) = (?b1, 4, [18, 19, 20, 21])"
    by code_simp
  have h5: "queue_ready tetris_game" by code_simp
  have c: "fst (snd (clear_lines (lock (board tetris_game) (cur tetris_game)))) = 4" by code_simp
  have s: "score tetris_game = 0" "combo tetris_game = 0"
    "drop_distance_soft tetris_game = 0" "drop_distance_hard tetris_game = 0"
    by (simp_all add: tetris_game_def demo_game_def)
  show ?thesis
    using back_to_back_tetris[OF h1 h2 h3 h4 h5] h1 c s by auto
qed

end
